theory Spec2Isabelle
  imports Main "HOL-Library.Monad_Syntax" "HOL-Library.Multiset"
begin

section \<open>The planar-map construction engine of planar.cc and planar-fast.cc\<close>

text \<open>
  The repository holds two near-duplicate programs. \<^verbatim>\<open>planar-fast.cc\<close> is the text of
  \<^verbatim>\<open>planar.cc\<close> without its assertions, its diagnostics on the error stream, the
  degree check of \<^verbatim>\<open>sizefinal\<close> and one pruning rule of \<^verbatim>\<open>main\<close>. The member
  functions of \<^verbatim>\<open>GraphState\<close> are therefore embedded once, with a parameter that says
  which of the two texts is read.

  A result of type \<open>'a option\<close> is \<open>None\<close> where the C++ run has no defined result: an
  access out of range, a division by zero, or the abort of a failed \<^verbatim>\<open>assert\<close>.
\<close>

datatype variant = Planar | Fast

definition N_TRI :: int where "N_TRI = 1"
definition N_SQ :: int where "N_SQ = 2"
definition N_PENT :: int where "N_PENT = 5"
definition NUM_METH :: nat where "NUM_METH = 10"

record edge =
  v1 :: int
  v2 :: int

record faceCounter =
  ntri :: int
  nsq_c :: int
  npent_c :: int

record GraphState =
  numverts :: int
  nsq :: int
  npent :: int
  nhex :: int
  edges :: "edge list"
  faces :: "nat list list"
  openfaces :: "nat list"
  medgadd :: nat
  chosenFace :: nat

subsection \<open>Access with the range made explicit\<close>

definition idx :: "'a list \<Rightarrow> nat \<Rightarrow> 'a option" where
  "idx xs i = (if i < length xs then Some (xs ! i) else None)"

definition front_of :: "'a list \<Rightarrow> 'a option" where
  "front_of xs = (case xs of [] \<Rightarrow> None | x # _ \<Rightarrow> Some x)"

definition back_of :: "'a list \<Rightarrow> 'a option" where
  "back_of xs = (if xs = [] then None else Some (last xs))"

definition assert :: "variant \<Rightarrow> bool \<Rightarrow> unit option" where
  "assert v c = (if v = Planar \<and> \<not> c then None else Some ())"

text \<open>\<^verbatim>\<open>faces[openfaces[k]]\<close>\<close>

definition openface :: "GraphState \<Rightarrow> nat \<Rightarrow> nat list option" where
  "openface s k = do { f \<leftarrow> idx (openfaces s) k; idx (faces s) f }"

subsection \<open>The seed\<close>

definition mk_edge :: "int \<Rightarrow> int \<Rightarrow> edge" where
  "mk_edge va vb = \<lparr>v1 = va, v2 = vb\<rparr>"

definition GraphState_init :: GraphState where
  "GraphState_init =
     \<lparr>numverts = 7, nsq = 0, npent = 0, nhex = 1,
      edges = [mk_edge 1 2, mk_edge 2 3, mk_edge 1 3, mk_edge 3 4,
               mk_edge 4 5, mk_edge 5 6, mk_edge 6 7, mk_edge 7 1],
      faces = [[0, 1, 2], [2, 3, 4, 5, 6, 7], [7, 0], [1, 3], [4], [5], [6]],
      openfaces = [2, 3, 4, 5, 6],
      medgadd = 0, chosenFace = 0\<rparr>"

text \<open>A face is open while the open-boundary sequence refers to it, closed otherwise.\<close>

definition closedFaces :: "GraphState \<Rightarrow> nat list list" where
  "closedFaces s =
     map (\<lambda>i. faces s ! i) (filter (\<lambda>i. i \<notin> set (openfaces s)) [0..<length (faces s)])"

definition openFaces :: "GraphState \<Rightarrow> nat list list" where
  "openFaces s = map (\<lambda>f. faces s ! f) (openfaces s)"

subsection \<open>Face counters\<close>

text \<open>\<^verbatim>\<open>faceCounter::add\<close>: the increment stays in the counter also when the answer is no.\<close>

definition add :: "faceCounter \<Rightarrow> nat \<Rightarrow> bool \<times> faceCounter" where
  "add c sz =
     (if sz = 3 then (ntri c + 1 \<le> N_TRI, c\<lparr>ntri := ntri c + 1\<rparr>)
      else if sz = 4 then (nsq_c c + 1 \<le> N_SQ, c\<lparr>nsq_c := nsq_c c + 1\<rparr>)
      else if sz = 5 then (npent_c c + 1 \<le> N_PENT, c\<lparr>npent_c := npent_c c + 1\<rparr>)
      else if sz = 6 then (True, c)
      else (False, c))"

text \<open>
  \<^verbatim>\<open>GraphState::countFace\<close>. The second component is what \<^verbatim>\<open>planar.cc\<close> writes to the
  error stream in its default branch; \<^verbatim>\<open>planar-fast.cc\<close> has no default branch.
\<close>

definition countFace :: "variant \<Rightarrow> nat list \<Rightarrow> GraphState \<Rightarrow> GraphState \<times> string list" where
  "countFace v face s =
     (if length face = 4 then (s\<lparr>nsq := nsq s + 1\<rparr>, [])
      else if length face = 5 then (s\<lparr>npent := npent s + 1\<rparr>, [])
      else if length face = 6 then (s\<lparr>nhex := nhex s + 1\<rparr>, [])
      else (s, if v = Planar then [''**Face of size!''] else []))"

subsection \<open>Legality of a move\<close>

text \<open>
  The positions of the neighbours of \<open>oF\<close> in the cyclic open-boundary sequence. For
  \<open>n \<ge> 1\<close> and \<open>oF \<ge> 0\<close> the only negative dividend is \<open>-1\<close> at \<open>n = 1\<close>, where C's
  remainder and \<open>mod\<close> are both 0.
\<close>

definition cyc :: "nat \<Rightarrow> int \<Rightarrow> nat \<Rightarrow> nat option" where
  "cyc oF d n = (if n = 0 then None else Some (nat ((int oF + d) mod int n)))"

definition isValid_switch ::
  "nat \<Rightarrow> nat \<Rightarrow> faceCounter \<Rightarrow> nat list \<Rightarrow> nat list \<Rightarrow> nat list \<Rightarrow> nat list \<Rightarrow>
     nat list \<Rightarrow> nat list \<Rightarrow> nat list \<Rightarrow> bool" where
  "isValid_switch meth n facect pppF prprF prevF F nextF nnF nnnF =
    (if meth = 0 then False
     else if meth = 1 then
       (if n > 2 \<and> length prevF + length nextF > 4 then False
        else case (if n = 2 then add facect (length nextF + 1) else (True, facect)) of
          (r1, facect) \<Rightarrow>
            if \<not> r1 then False else fst (add facect (length F + 1)))
     else if meth = 2 then
       (if length prevF > 4 then False
        else if length nextF > 4 then False
        else fst (add facect (length F + 2)))
     else if meth = 3 then
       (if n < 4 \<or> n = 5 then False
        else if length nnF \<noteq> 1 then False
        else case add facect (length nextF + 1) of (r1, facect) \<Rightarrow>
          if \<not> r1 then False
          else if n > 4 \<and> length prevF + length nnnF > 4 then False
          else case (if n = 4 then add facect (length prevF + 1) else (True, facect)) of
            (r2, facect) \<Rightarrow>
              if \<not> r2 then False else fst (add facect (length F + 3)))
     else if meth = 4 then
       (if n < 6 then False
        else if length prprF \<noteq> 1 then False
        else case add facect (length prevF + 1) of (r1, facect) \<Rightarrow>
          if \<not> r1 then False
          else if n > 4 \<and> length pppF + length nextF > 4 then False
          else case (if n = 4 then add facect (length nextF + 1) else (True, facect)) of
            (r2, facect) \<Rightarrow>
              if \<not> r2 then False else fst (add facect (length F + 3)))
     else if meth = 5 then
       (if length prevF > 4 then False
        else if length nextF > 4 then False
        else fst (add facect (length F + 3)))
     else if meth = 6 then
       (if n < 4 \<or> n = 5 then False
        else if length nnF \<noteq> 2 then False
        else case add facect (length nextF + 1) of (r1, facect) \<Rightarrow>
          if \<not> r1 then False
          else if n > 4 \<and> length prevF + length nnnF > 4 then False
          else case (if n = 4 then add facect (length prevF + 1) else (True, facect)) of
            (r2, facect) \<Rightarrow>
              if \<not> r2 then False else fst (add facect (length F + 4)))
     else if meth = 7 then
       (if n < 6 then False
        else if length prprF \<noteq> 2 then False
        else case add facect (length prevF + 1) of (r1, facect) \<Rightarrow>
          if \<not> r1 then False
          else if n > 4 \<and> length pppF + length nextF > 4 then False
          else case (if n = 4 then add facect (length nextF + 1) else (True, facect)) of
            (r2, facect) \<Rightarrow>
              if \<not> r2 then False else fst (add facect (length F + 4)))
     else if meth = 8 then
       (if n < 5 then False
        else if length nnF \<noteq> 1 then False
        else if length prevF > 4 then False
        else if length nnnF > 4 then False
        else case add facect (length nextF + 1) of (r1, facect) \<Rightarrow>
          if \<not> r1 then False else fst (add facect (length F + 4)))
     else if meth = 9 then
       (if n < 5 then False
        else if length prprF \<noteq> 1 then False
        else if length nextF > 4 then False
        else if length pppF > 4 then False
        else case add facect (length prevF + 1) of (r1, facect) \<Rightarrow>
          if \<not> r1 then False else fst (add facect (length F + 4)))
     else if meth = 10 then
       (if length prevF > 4 then False
        else if length nextF > 4 then False
        else fst (add facect (length F + 4)))
     else False)"

text \<open>
  \<^verbatim>\<open>GraphState::isValid(oF, meth)\<close>. The seven references are bound before the switch,
  so each of them has to exist whatever the move; \<^verbatim>\<open>planar.cc\<close> asserts that the
  chosen face has more than one edge.
\<close>

definition isValid :: "variant \<Rightarrow> GraphState \<Rightarrow> nat \<Rightarrow> nat \<Rightarrow> bool option" where
  "isValid v s oF meth = do {
     let n = length (openfaces s);
     pppoF \<leftarrow> cyc oF (2 * int n - 3) n;
     ppoF \<leftarrow> cyc oF (int n - 2) n;
     poF \<leftarrow> cyc oF (int n - 1) n;
     noF \<leftarrow> cyc oF 1 n;
     nnoF \<leftarrow> cyc oF 2 n;
     nnnoF \<leftarrow> cyc oF 3 n;
     pppF \<leftarrow> openface s pppoF;
     prprF \<leftarrow> openface s ppoF;
     prevF \<leftarrow> openface s poF;
     F \<leftarrow> openface s oF;
     nextF \<leftarrow> openface s noF;
     nnF \<leftarrow> openface s nnoF;
     nnnF \<leftarrow> openface s nnnoF;
     let facect = \<lparr>ntri = 1, nsq_c = nsq s, npent_c = npent s\<rparr>;
     assert v (length F > 1);
     Some (isValid_switch meth n facect pppF prprF prevF F nextF nnF nnnF)
   }"

text \<open>\<^verbatim>\<open>GraphState::incMethod\<close>: the loop, with the state it leaves behind.\<close>

function incMethod :: "variant \<Rightarrow> GraphState \<Rightarrow> (bool \<times> GraphState) option" where
  "incMethod v s =
     (if medgadd s \<le> NUM_METH then
        (let s1 = s\<lparr>medgadd := medgadd s + 1\<rparr> in
         case isValid v s1 (chosenFace s1) (medgadd s1) of
           None \<Rightarrow> None
         | Some True \<Rightarrow> Some (True, s1)
         | Some False \<Rightarrow> incMethod v s1)
      else Some (False, s))"
  by pat_completeness auto
termination
  by (relation "measure (\<lambda>(v, s). NUM_METH + 1 - medgadd s)") auto

subsection \<open>Choosing the face\<close>

text \<open>
  \<^verbatim>\<open>GraphState::chooseFace\<close>: the loop over \<open>i = 1, ..., n - 1\<close> as a recursion over
  the positions still to visit, carrying the value of \<open>chosenFace\<close>.
\<close>

fun chooseFace_loop :: "GraphState \<Rightarrow> nat list \<Rightarrow> nat \<Rightarrow> nat option" where
  "chooseFace_loop s [] cf = Some cf"
| "chooseFace_loop s (i # js) cf = do {
     fi \<leftarrow> openface s i;
     fc \<leftarrow> openface s cf;
     chooseFace_loop s js (if length fi > length fc then i else cf)
   }"

definition chooseFace :: "GraphState \<Rightarrow> GraphState option" where
  "chooseFace s = do {
     cf \<leftarrow> chooseFace_loop s [1..<length (openfaces s)] 0;
     Some (s\<lparr>chosenFace := cf, medgadd := 0\<rparr>)
   }"

subsection \<open>The size tests\<close>

text \<open>
  The loops of \<^verbatim>\<open>sizecheck\<close> and \<^verbatim>\<open>sizefinal\<close> over the faces. \<open>Inl b\<close> is the
  loop's own \<^verbatim>\<open>return b\<close>; \<open>Inr\<close> carries the array \<^verbatim>\<open>facesoflen\<close> out of the loop.
\<close>

fun tally_check :: "nat list list \<Rightarrow> int list \<Rightarrow> bool + int list" where
  "tally_check [] facesoflen = Inr facesoflen"
| "tally_check (F # Fs) facesoflen =
     (if length F > 6 then Inl False
      else tally_check Fs (facesoflen[length F := facesoflen ! length F + 1]))"

fun untally_open :: "nat list list \<Rightarrow> nat list \<Rightarrow> int list \<Rightarrow> (bool + int list) option" where
  "untally_open fs [] facesoflen = Some (Inr facesoflen)"
| "untally_open fs (f # os) facesoflen = do {
     F \<leftarrow> idx fs f;
     if length F > 5 then Some (Inl False)
     else untally_open fs os (facesoflen[length F := facesoflen ! length F - 1])
   }"

definition sizecheck :: "variant \<Rightarrow> GraphState \<Rightarrow> bool option" where
  "sizecheck v s =
     (case tally_check (faces s) (replicate 7 0) of
        Inl b \<Rightarrow> Some b
      | Inr facesoflen \<Rightarrow> do {
          r \<leftarrow> untally_open (faces s) (openfaces s) facesoflen;
          case r of
            Inl b \<Rightarrow> Some b
          | Inr facesoflen \<Rightarrow>
              if facesoflen ! 0 \<noteq> 0 \<or> facesoflen ! 1 \<noteq> 0 \<or> facesoflen ! 2 \<noteq> 0
              then Some False
              else do {
                assert v (facesoflen ! 3 = 1 \<and> facesoflen ! 4 = nsq s
                          \<and> facesoflen ! 5 = npent s \<and> facesoflen ! 6 = nhex s);
                Some (facesoflen ! 3 \<le> N_TRI \<and> facesoflen ! 4 \<le> N_SQ
                      \<and> facesoflen ! 5 \<le> N_PENT)
              }
        })"

fun tally_final :: "nat list list \<Rightarrow> int list \<Rightarrow> bool + int list" where
  "tally_final [] facesoflen = Inr facesoflen"
| "tally_final (F # Fs) facesoflen =
     (if length F < 3 \<or> length F > 6 then Inl False
      else tally_final Fs (facesoflen[length F := facesoflen ! length F + 1]))"

text \<open>\<^verbatim>\<open>++vertdegs[i]\<close> on an array of \<open>numverts + 1\<close> counters.\<close>

definition incr_at :: "int list \<Rightarrow> int \<Rightarrow> int list option" where
  "incr_at vertdegs i =
     (if 0 \<le> i \<and> nat i < length vertdegs
      then Some (vertdegs[nat i := vertdegs ! nat i + 1]) else None)"

fun degree_loop :: "edge list \<Rightarrow> int list \<Rightarrow> int list option" where
  "degree_loop [] vertdegs = Some vertdegs"
| "degree_loop (e # es) vertdegs = do {
     vertdegs \<leftarrow> incr_at vertdegs (v1 e);
     vertdegs \<leftarrow> incr_at vertdegs (v2 e);
     degree_loop es vertdegs
   }"

text \<open>\<^verbatim>\<open>*std::min_element(first, last)\<close>: on an empty range it reads \<^verbatim>\<open>*last\<close>.\<close>

definition min_element :: "int list \<Rightarrow> int option" where
  "min_element xs = (case xs of [] \<Rightarrow> None | x # ys \<Rightarrow> Some (fold min ys x))"

definition max_element :: "int list \<Rightarrow> int option" where
  "max_element xs = (case xs of [] \<Rightarrow> None | x # ys \<Rightarrow> Some (fold max ys x))"

text \<open>
  \<^verbatim>\<open>GraphState::sizefinal\<close>. The degree check is in \<^verbatim>\<open>planar.cc\<close> only. The two
  diagnostics it writes (\<^verbatim>\<open>**Vertex 0?!\<close>, \<^verbatim>\<open>**Not cubic\<close>) change no result and are
  left out.
\<close>

definition sizefinal :: "variant \<Rightarrow> GraphState \<Rightarrow> bool option" where
  "sizefinal v s =
     (case tally_final (faces s) (replicate 7 0) of
        Inl b \<Rightarrow> Some b
      | Inr facesoflen \<Rightarrow> do {
          assert v (facesoflen ! 3 = 1 \<and> facesoflen ! 4 = nsq s
                    \<and> facesoflen ! 5 = npent s \<and> facesoflen ! 6 = nhex s);
          cubic \<leftarrow>
            (if v = Planar then
               if numverts s < 0 then None
               else do {
                 vertdegs \<leftarrow> degree_loop (edges s) (replicate (nat (numverts s + 1)) 0);
                 lo \<leftarrow> min_element (tl vertdegs);
                 hi \<leftarrow> max_element (tl vertdegs);
                 Some (\<not> (lo \<noteq> 3 \<or> hi \<noteq> 3))
               }
             else Some True);
          if \<not> cubic then Some False
          else Some (facesoflen ! 3 = N_TRI \<and> facesoflen ! 4 = N_SQ
                     \<and> facesoflen ! 5 = N_PENT)
        })"

text \<open>The degree of a vertex: the number of edge ends at it.\<close>

definition degree :: "GraphState \<Rightarrow> int \<Rightarrow> nat" where
  "degree s x = length (filter (\<lambda>e. v1 e = x) (edges s)) + length (filter (\<lambda>e. v2 e = x) (edges s))"

definition facesoflen_of :: "GraphState \<Rightarrow> nat \<Rightarrow> nat" where
  "facesoflen_of s k = length (filter (\<lambda>F. length F = k) (faces s))"

definition ends_at :: "edge list \<Rightarrow> int \<Rightarrow> nat" where
  "ends_at es x = length (filter (\<lambda>e. v1 e = x) es) + length (filter (\<lambda>e. v2 e = x) es)"


subsection \<open>Applying a move\<close>

text \<open>The container operations \<^verbatim>\<open>addEdges\<close> uses, each with its precondition.\<close>

definition emplace_edge :: "int \<Rightarrow> int \<Rightarrow> GraphState \<Rightarrow> GraphState" where
  "emplace_edge va vb s = s\<lparr>edges := edges s @ [mk_edge va vb]\<rparr>"

definition push_back :: "nat \<Rightarrow> nat \<Rightarrow> GraphState \<Rightarrow> GraphState option" where
  "push_back f x s =
     (if f < length (faces s) then Some (s\<lparr>faces := (faces s)[f := faces s ! f @ [x]]\<rparr>)
      else None)"

definition push_front :: "nat \<Rightarrow> nat \<Rightarrow> GraphState \<Rightarrow> GraphState option" where
  "push_front f x s =
     (if f < length (faces s) then Some (s\<lparr>faces := (faces s)[f := x # faces s ! f]\<rparr>)
      else None)"

text \<open>
  \<^verbatim>\<open>faces[f].insert(faces[f].end(), faces[g].begin(), faces[g].end())\<close>; the range
  must not come from the deque it is inserted into.
\<close>

definition append_face :: "nat \<Rightarrow> nat \<Rightarrow> GraphState \<Rightarrow> GraphState option" where
  "append_face f g s =
     (if f < length (faces s) \<and> g < length (faces s) \<and> f \<noteq> g
      then Some (s\<lparr>faces := (faces s)[f := faces s ! f @ faces s ! g]\<rparr>)
      else None)"

text \<open>\<^verbatim>\<open>faces.emplace_back(1, x)\<close>: a new face holding the one edge \<open>x\<close>.\<close>

definition new_face :: "nat \<Rightarrow> GraphState \<Rightarrow> GraphState" where
  "new_face x s = s\<lparr>faces := faces s @ [[x]]\<rparr>"

text \<open>\<^verbatim>\<open>openfaces.erase(begin + a, begin + b)\<close> and \<^verbatim>\<open>openfaces.erase(begin + a)\<close>.\<close>

definition erase_range :: "nat \<Rightarrow> nat \<Rightarrow> GraphState \<Rightarrow> GraphState option" where
  "erase_range a b s =
     (if a \<le> b \<and> b \<le> length (openfaces s)
      then Some (s\<lparr>openfaces := take a (openfaces s) @ drop b (openfaces s)\<rparr>)
      else None)"

definition erase_at :: "nat \<Rightarrow> GraphState \<Rightarrow> GraphState option" where
  "erase_at a s =
     (if a < length (openfaces s)
      then Some (s\<lparr>openfaces := take a (openfaces s) @ drop (Suc a) (openfaces s)\<rparr>)
      else None)"

definition insert_open :: "nat \<Rightarrow> nat \<Rightarrow> GraphState \<Rightarrow> GraphState option" where
  "insert_open a x s =
     (if a \<le> length (openfaces s)
      then Some (s\<lparr>openfaces := take a (openfaces s) @ x # drop a (openfaces s)\<rparr>)
      else None)"

definition set_open :: "nat \<Rightarrow> nat \<Rightarrow> GraphState \<Rightarrow> GraphState option" where
  "set_open a x s =
     (if a < length (openfaces s) then Some (s\<lparr>openfaces := (openfaces s)[a := x]\<rparr>)
      else None)"

definition incr_numverts :: "GraphState \<Rightarrow> GraphState" where
  "incr_numverts s = s\<lparr>numverts := numverts s + 1\<rparr>"

text \<open>
  \<^verbatim>\<open>startpt\<close> and \<^verbatim>\<open>endpt\<close> of \<^verbatim>\<open>planar.cc\<close>; \<^verbatim>\<open>planar-fast.cc\<close> writes
  \<^verbatim>\<open>edges[face[0]].v1\<close> and \<^verbatim>\<open>edges[face.back()].v2\<close> in their place.
\<close>

definition startpt :: "variant \<Rightarrow> GraphState \<Rightarrow> nat list \<Rightarrow> int option" where
  "startpt v s face = do {
     e0 \<leftarrow> front_of face;
     first \<leftarrow> idx (edges s) e0;
     if v = Fast \<or> length face = 1 then Some (v1 first)
     else do {
       e1 \<leftarrow> idx face 1;
       sec \<leftarrow> idx (edges s) e1;
       assert v (v1 first \<noteq> v1 sec \<and> v1 first \<noteq> v2 sec);
       Some (v1 first)
     }
   }"

definition endpt :: "variant \<Rightarrow> GraphState \<Rightarrow> nat list \<Rightarrow> int option" where
  "endpt v s face = do {
     el \<leftarrow> back_of face;
     laste \<leftarrow> idx (edges s) el;
     if v = Fast \<or> length face = 1 then Some (v2 laste)
     else do {
       ep \<leftarrow> idx face (length face - 2);
       pene \<leftarrow> idx (edges s) ep;
       assert v (v2 laste \<noteq> v1 pene \<and> v2 laste \<noteq> v2 pene);
       Some (v2 laste)
     }
   }"

text \<open>\<^verbatim>\<open>startpt(faces[f])\<close>, \<^verbatim>\<open>endpt(faces[f])\<close>, \<^verbatim>\<open>countFace(faces[f])\<close>.\<close>

definition startpt_at :: "variant \<Rightarrow> GraphState \<Rightarrow> nat \<Rightarrow> int option" where
  "startpt_at v s f = do { face \<leftarrow> idx (faces s) f; startpt v s face }"

definition endpt_at :: "variant \<Rightarrow> GraphState \<Rightarrow> nat \<Rightarrow> int option" where
  "endpt_at v s f = do { face \<leftarrow> idx (faces s) f; endpt v s face }"

definition countFace_at :: "variant \<Rightarrow> nat \<Rightarrow> GraphState \<Rightarrow> (GraphState \<times> string list) option" where
  "countFace_at v f s = do { face \<leftarrow> idx (faces s) f; Some (countFace v face s) }"

text \<open>
  An assertion whose condition is itself computed with calls that can fail: it is
  evaluated in \<^verbatim>\<open>planar.cc\<close> only.
\<close>

definition asserting :: "variant \<Rightarrow> bool option \<Rightarrow> unit option" where
  "asserting v c = (if v = Planar then do { b \<leftarrow> c; assert v b } else Some ())"

definition face_size_is :: "GraphState \<Rightarrow> nat \<Rightarrow> nat \<Rightarrow> bool option" where
  "face_size_is s f k = do { face \<leftarrow> idx (faces s) f; Some (length face = k) }"

text \<open>
  The cases of the switch of \<^verbatim>\<open>addEdges\<close>. Each returns the state, the vector
  \<^verbatim>\<open>toerase\<close> and what was written to the error stream.
\<close>

definition addEdges_1 ::
  "variant \<Rightarrow> nat \<Rightarrow> nat \<Rightarrow> nat \<Rightarrow> nat \<Rightarrow> nat \<Rightarrow> nat \<Rightarrow> int \<Rightarrow> int \<Rightarrow> GraphState
     \<Rightarrow> (GraphState \<times> nat list \<times> string list) option" where
  "addEdges_1 v n oF noF pF fF nF startF endptF s = do {
     let s = emplace_edge startF endptF s;
     s \<leftarrow> push_back fF (length (edges s) - 1) s;
     s \<leftarrow> push_back pF (length (edges s) - 1) s;
     s \<leftarrow> (if noF > oF then erase_range oF (oF + 2) s
            else do { s \<leftarrow> erase_at oF s; erase_at noF s });
     if n = 2 then do {
       (s, w) \<leftarrow> countFace_at v pF s;
       Some (s, [], w)
     } else do {
       s \<leftarrow> append_face pF nF s;
       Some (s, [nF], [])
     }
   }"

definition addEdges_2 ::
  "nat \<Rightarrow> nat \<Rightarrow> nat \<Rightarrow> nat \<Rightarrow> int \<Rightarrow> int \<Rightarrow> GraphState
     \<Rightarrow> (GraphState \<times> nat list \<times> string list) option" where
  "addEdges_2 oF pF fF nF startF endptF s = do {
     let s = incr_numverts s;
     let s = emplace_edge startF (numverts s) s;
     s \<leftarrow> push_back pF (length (edges s) - 1) s;
     let s = emplace_edge (numverts s) endptF s;
     s \<leftarrow> push_back fF (length (edges s) - 1) s;
     s \<leftarrow> push_back fF (length (edges s) - 2) s;
     s \<leftarrow> push_front nF (length (edges s) - 1) s;
     s \<leftarrow> erase_at oF s;
     Some (s, [], [])
   }"

text \<open>Cases 3 and 6: case 3 is an assertion and falls through into case 6.\<close>

definition addEdges_3_6 ::
  "variant \<Rightarrow> nat \<Rightarrow> nat \<Rightarrow> nat \<Rightarrow> nat \<Rightarrow> nat \<Rightarrow> nat \<Rightarrow> nat \<Rightarrow> nat \<Rightarrow> nat \<Rightarrow> nat \<Rightarrow> nat
     \<Rightarrow> int \<Rightarrow> int \<Rightarrow> GraphState \<Rightarrow> (GraphState \<times> nat list \<times> string list) option" where
  "addEdges_3_6 v meth n oF noF nnoF nnnoF pF fF nF nnF nnnF startF endptF s = do {
     (if meth = 3 then asserting v (face_size_is s nnF 1) else Some ());
     e \<leftarrow> endpt_at v s nF;
     let s = emplace_edge endptF e s;
     s \<leftarrow> push_back fF (length (edges s) - 1) s;
     s \<leftarrow> push_back nF (length (edges s) - 1) s;
     (s, w1) \<leftarrow> countFace_at v nF s;
     s \<leftarrow> append_face fF nnF s;
     e \<leftarrow> endpt_at v s nnF;
     let s = emplace_edge startF e s;
     s \<leftarrow> push_back fF (length (edges s) - 1) s;
     s \<leftarrow> push_back pF (length (edges s) - 1) s;
     s \<leftarrow> (if nnnoF > oF then erase_range oF (oF + 4) s
            else if nnoF > oF then do { s \<leftarrow> erase_range oF (oF + 3) s; erase_at nnnoF s }
            else if noF > oF then do {
              s \<leftarrow> erase_range oF (oF + 2) s;
              erase_range nnoF (nnoF + 2) s }
            else do { s \<leftarrow> erase_at oF s; erase_range noF (noF + 3) s });
     if n = 4 then do {
       (s, w2) \<leftarrow> countFace_at v pF s;
       Some (s, [nnF], w1 @ w2)
     } else do {
       s \<leftarrow> append_face pF nnnF s;
       Some (s, [nnF, nnnF], w1)
     }
   }"

text \<open>Cases 4 and 7, likewise.\<close>

definition addEdges_4_7 ::
  "variant \<Rightarrow> nat \<Rightarrow> nat \<Rightarrow> nat \<Rightarrow> nat \<Rightarrow> nat \<Rightarrow> nat \<Rightarrow> nat \<Rightarrow> nat \<Rightarrow> nat \<Rightarrow> nat \<Rightarrow> nat
     \<Rightarrow> int \<Rightarrow> int \<Rightarrow> GraphState \<Rightarrow> (GraphState \<times> nat list \<times> string list) option" where
  "addEdges_4_7 v meth n oF ppoF poF noF pppF ppF pF fF nF startF endptF s = do {
     (if meth = 4 then asserting v (face_size_is s ppF 1) else Some ());
     asserting v (do { e \<leftarrow> endpt_at v s pF; Some (e = startF) });
     e \<leftarrow> startpt_at v s pF;
     let s = emplace_edge e startF s;
     s \<leftarrow> push_back fF (length (edges s) - 1) s;
     s \<leftarrow> push_back pF (length (edges s) - 1) s;
     (s, w1) \<leftarrow> countFace_at v pF s;
     s \<leftarrow> append_face fF ppF s;
     e \<leftarrow> startpt_at v s ppF;
     let s = emplace_edge e endptF s;
     s \<leftarrow> push_back fF (length (edges s) - 1) s;
     s \<leftarrow> push_back pppF (length (edges s) - 1) s;
     s \<leftarrow> (if ppoF < noF then erase_range ppoF (noF + 1) s
            else if poF < noF then do { s \<leftarrow> erase_at ppoF s; erase_range poF (noF + 1) s }
            else if oF < noF then do {
              s \<leftarrow> erase_range ppoF (poF + 1) s;
              erase_range oF (noF + 1) s }
            else do { s \<leftarrow> erase_range ppoF (oF + 1) s; erase_at noF s });
     if n = 4 then do {
       (s, w2) \<leftarrow> countFace_at v nF s;
       Some (s, [ppF], w1 @ w2)
     } else do {
       s \<leftarrow> append_face pppF nF s;
       Some (s, [ppF, nF], w1)
     }
   }"

definition addEdges_5 ::
  "nat \<Rightarrow> nat \<Rightarrow> nat \<Rightarrow> nat \<Rightarrow> int \<Rightarrow> int \<Rightarrow> GraphState
     \<Rightarrow> (GraphState \<times> nat list \<times> string list) option" where
  "addEdges_5 oF pF fF nF startF endptF s = do {
     let s = incr_numverts s;
     let s = emplace_edge startF (numverts s) s;
     s \<leftarrow> push_back pF (length (edges s) - 1) s;
     let s = incr_numverts s;
     let s = emplace_edge (numverts s - 1) (numverts s) s;
     let s = new_face (length (edges s) - 1) s;
     s \<leftarrow> set_open oF (length (faces s) - 1) s;
     let s = emplace_edge (numverts s) endptF s;
     s \<leftarrow> push_back fF (length (edges s) - 1) s;
     s \<leftarrow> push_back fF (length (edges s) - 2) s;
     s \<leftarrow> push_back fF (length (edges s) - 3) s;
     s \<leftarrow> push_front nF (length (edges s) - 1) s;
     Some (s, [], [])
   }"

definition addEdges_8 ::
  "variant \<Rightarrow> nat \<Rightarrow> nat \<Rightarrow> nat \<Rightarrow> nat \<Rightarrow> nat \<Rightarrow> nat \<Rightarrow> nat \<Rightarrow> nat
     \<Rightarrow> int \<Rightarrow> int \<Rightarrow> GraphState \<Rightarrow> (GraphState \<times> nat list \<times> string list) option" where
  "addEdges_8 v oF noF nnoF pF fF nF nnF nnnF startF endptF s = do {
     asserting v (face_size_is s nnF 1);
     asserting v (do { e \<leftarrow> startpt_at v s nF; Some (endptF = e) });
     e \<leftarrow> endpt_at v s nF;
     let s = emplace_edge endptF e s;
     s \<leftarrow> push_back fF (length (edges s) - 1) s;
     asserting v (do { a \<leftarrow> endpt_at v s nnF; b \<leftarrow> endpt_at v s nF; Some (a \<noteq> b) });
     s \<leftarrow> push_back nF (length (edges s) - 1) s;
     face \<leftarrow> idx (faces s) nnF;
     x \<leftarrow> front_of face;
     s \<leftarrow> push_back fF x s;
     e \<leftarrow> endpt_at v s nnF;
     let s = incr_numverts s;
     let s = emplace_edge (numverts s) e s;
     s \<leftarrow> push_back fF (length (edges s) - 1) s;
     s \<leftarrow> push_front nnnF (length (edges s) - 1) s;
     let s = emplace_edge startF (numverts s) s;
     s \<leftarrow> push_back fF (length (edges s) - 1) s;
     s \<leftarrow> push_back pF (length (edges s) - 1) s;
     s \<leftarrow> (if nnoF > oF then erase_range oF (oF + 3) s
            else if noF > oF then do { s \<leftarrow> erase_range oF (oF + 2) s; erase_at nnoF s }
            else do { s \<leftarrow> erase_at oF s; erase_range noF (noF + 2) s });
     (s, w) \<leftarrow> countFace_at v nF s;
     Some (s, [nnF], w)
   }"

definition addEdges_9 ::
  "variant \<Rightarrow> nat \<Rightarrow> nat \<Rightarrow> nat \<Rightarrow> nat \<Rightarrow> nat \<Rightarrow> nat \<Rightarrow> nat \<Rightarrow> nat
     \<Rightarrow> int \<Rightarrow> int \<Rightarrow> GraphState \<Rightarrow> (GraphState \<times> nat list \<times> string list) option" where
  "addEdges_9 v oF ppoF poF pppF ppF pF fF nF startF endptF s = do {
     asserting v (face_size_is s ppF 1);
     asserting v (do { e \<leftarrow> endpt_at v s pF; Some (e = startF) });
     e \<leftarrow> startpt_at v s pF;
     let s = emplace_edge e startF s;
     s \<leftarrow> push_back fF (length (edges s) - 1) s;
     s \<leftarrow> push_back pF (length (edges s) - 1) s;
     face \<leftarrow> idx (faces s) ppF;
     x \<leftarrow> front_of face;
     s \<leftarrow> push_back fF x s;
     asserting v (do { a \<leftarrow> startpt_at v s ppF; b \<leftarrow> startpt_at v s pF; Some (a \<noteq> b) });
     e \<leftarrow> startpt_at v s ppF;
     let s = incr_numverts s;
     let s = emplace_edge e (numverts s) s;
     s \<leftarrow> push_back fF (length (edges s) - 1) s;
     s \<leftarrow> push_back pppF (length (edges s) - 1) s;
     let s = emplace_edge (numverts s) endptF s;
     s \<leftarrow> push_back fF (length (edges s) - 1) s;
     s \<leftarrow> push_front nF (length (edges s) - 1) s;
     s \<leftarrow> (if ppoF < oF then erase_range ppoF (oF + 1) s
            else if poF < oF then do { s \<leftarrow> erase_at ppoF s; erase_range poF (oF + 1) s }
            else do { s \<leftarrow> erase_range ppoF (poF + 1) s; erase_at oF s });
     (s, w) \<leftarrow> countFace_at v pF s;
     Some (s, [ppF], w)
   }"

definition addEdges_10 ::
  "nat \<Rightarrow> nat \<Rightarrow> nat \<Rightarrow> nat \<Rightarrow> int \<Rightarrow> int \<Rightarrow> GraphState
     \<Rightarrow> (GraphState \<times> nat list \<times> string list) option" where
  "addEdges_10 oF pF fF nF startF endptF s = do {
     let s = incr_numverts s;
     let s = emplace_edge startF (numverts s) s;
     s \<leftarrow> push_back fF (length (edges s) - 1) s;
     s \<leftarrow> push_back pF (length (edges s) - 1) s;
     let s = incr_numverts s;
     let s = emplace_edge (numverts s - 1) (numverts s) s;
     s \<leftarrow> push_back fF (length (edges s) - 1) s;
     let s = new_face (length (edges s) - 1) s;
     s \<leftarrow> insert_open oF (length (faces s) - 1) s;
     let s = incr_numverts s;
     let s = emplace_edge (numverts s - 1) (numverts s) s;
     s \<leftarrow> push_back fF (length (edges s) - 1) s;
     let s = new_face (length (edges s) - 1) s;
     s \<leftarrow> set_open (oF + 1) (length (faces s) - 1) s;
     let s = emplace_edge (numverts s) endptF s;
     s \<leftarrow> push_back fF (length (edges s) - 1) s;
     s \<leftarrow> push_front nF (length (edges s) - 1) s;
     Some (s, [], [])
   }"

text \<open>
  The loop that closes \<^verbatim>\<open>addEdges\<close>, over \<^verbatim>\<open>toerase\<close> sorted in descending order:
  every open-boundary reference above \<open>ef\<close> goes down by one, then the face slot
  \<open>ef\<close> is erased.
\<close>

fun erase_loop :: "nat list \<Rightarrow> GraphState \<Rightarrow> GraphState option" where
  "erase_loop [] s = Some s"
| "erase_loop (ef # efs) s =
     (let s = s\<lparr>openfaces := map (\<lambda>opf. if opf > ef then opf - 1 else opf) (openfaces s)\<rparr> in
      if ef < length (faces s)
      then erase_loop efs (s\<lparr>faces := take ef (faces s) @ drop (Suc ef) (faces s)\<rparr>)
      else None)"

text \<open>
  \<^verbatim>\<open>GraphState::addEdges(oF, meth)\<close>. Outside 1..10 the switch of \<^verbatim>\<open>planar.cc\<close>
  runs \<^verbatim>\<open>assert(false)\<close>; that of \<^verbatim>\<open>planar-fast.cc\<close> does nothing.
\<close>

definition addEdges :: "variant \<Rightarrow> GraphState \<Rightarrow> nat \<Rightarrow> nat \<Rightarrow> (GraphState \<times> string list) option" where
  "addEdges v s oF meth = do {
     let n = length (openfaces s);
     pppoF \<leftarrow> cyc oF (2 * int n - 3) n;
     ppoF \<leftarrow> cyc oF (int n - 2) n;
     poF \<leftarrow> cyc oF (int n - 1) n;
     noF \<leftarrow> cyc oF 1 n;
     nnoF \<leftarrow> cyc oF 2 n;
     nnnoF \<leftarrow> cyc oF 3 n;
     pppF \<leftarrow> idx (openfaces s) pppoF;
     ppF \<leftarrow> idx (openfaces s) ppoF;
     pF \<leftarrow> idx (openfaces s) poF;
     fF \<leftarrow> idx (openfaces s) oF;
     nF \<leftarrow> idx (openfaces s) noF;
     nnF \<leftarrow> idx (openfaces s) nnoF;
     nnnF \<leftarrow> idx (openfaces s) nnnoF;
     startF \<leftarrow> startpt_at v s fF;
     endptF \<leftarrow> endpt_at v s fF;
     (s, toerase, w) \<leftarrow>
       (if meth = 1 then addEdges_1 v n oF noF pF fF nF startF endptF s
        else if meth = 2 then addEdges_2 oF pF fF nF startF endptF s
        else if meth = 3 \<or> meth = 6 then
          addEdges_3_6 v meth n oF noF nnoF nnnoF pF fF nF nnF nnnF startF endptF s
        else if meth = 4 \<or> meth = 7 then
          addEdges_4_7 v meth n oF ppoF poF noF pppF ppF pF fF nF startF endptF s
        else if meth = 5 then addEdges_5 oF pF fF nF startF endptF s
        else if meth = 8 then addEdges_8 v oF noF nnoF pF fF nF nnF nnnF startF endptF s
        else if meth = 9 then addEdges_9 v oF ppoF poF pppF ppF pF fF nF startF endptF s
        else if meth = 10 then addEdges_10 oF pF fF nF startF endptF s
        else do { assert v False; Some (s, [], []) });
     (s, w') \<leftarrow> countFace_at v fF s;
     s \<leftarrow> erase_loop (rev (sort toerase)) s;
     Some (s, w @ w')
   }"

subsection \<open>The canonical oracle\<close>

text \<open>
  \<^verbatim>\<open>canongraph\<close> fills the static sparse graph \<^verbatim>\<open>sg\<close> from \<open>numverts\<close> and
  \<open>edges\<close> and hands it to nauty. nauty is not part of the repository: it is a
  parameter, a function from the sparse graph to the error status and to the range
  \<^verbatim>\<open>canong.e[0 .. canong.nde)\<close> as \<^verbatim>\<open>sortlists_sg\<close> leaves it. The array \<^verbatim>\<open>sg.e\<close>
  is taken at the length asked for, \<open>3 * numverts\<close>; nauty reads the first \<open>d[i]\<close>
  entries from \<open>v[i]\<close> on only, all of them written by the loop.
\<close>

record sparsegraph =
  sg_nv :: int
  sg_nde :: nat
  sg_v :: "nat list"
  sg_d :: "nat list"
  sg_e :: "int list"

record nauty_result =
  errstatus :: int
  canong_e :: "int list"

type_synonym canon_oracle = "sparsegraph \<Rightarrow> nauty_result"

text \<open>\<^verbatim>\<open>sg.e[sg.v[a-1] + sg.d[a-1]] = b - 1; ++sg.d[a-1];\<close>\<close>

definition sg_put :: "sparsegraph \<Rightarrow> int \<Rightarrow> int \<Rightarrow> sparsegraph option" where
  "sg_put sg a b =
     (if 1 \<le> a \<and> nat (a - 1) < length (sg_v sg) then
        (let i = nat (a - 1); k = sg_v sg ! i + sg_d sg ! i in
         if k < length (sg_e sg)
         then Some (sg\<lparr>sg_e := (sg_e sg)[k := b - 1], sg_d := (sg_d sg)[i := sg_d sg ! i + 1]\<rparr>)
         else None)
      else None)"

fun sg_fill :: "edge list \<Rightarrow> sparsegraph \<Rightarrow> sparsegraph option" where
  "sg_fill [] sg = Some sg"
| "sg_fill (e # es) sg = do {
     sg \<leftarrow> sg_put sg (v1 e) (v2 e);
     sg \<leftarrow> sg_put sg (v2 e) (v1 e);
     sg_fill es sg
   }"

definition fill_sg :: "GraphState \<Rightarrow> sparsegraph option" where
  "fill_sg s =
     (if numverts s < 0 then None
      else do {
        let nv = nat (numverts s);
        let sg = \<lparr>sg_nv = numverts s, sg_nde = 2 * length (edges s),
                  sg_v = map (\<lambda>i. 3 * i) [0..<nv], sg_d = replicate nv 0,
                  sg_e = replicate (3 * nv) 0\<rparr>;
        sg_fill (edges s) sg
      })"

text \<open>
  \<^verbatim>\<open>GraphState::canongraph\<close>: the canonical encoding it leaves in \<^verbatim>\<open>canong\<close>, and
  the warning of \<^verbatim>\<open>planar.cc\<close> on an error status.
\<close>

definition canongraph :: "variant \<Rightarrow> canon_oracle \<Rightarrow> GraphState \<Rightarrow> (int list \<times> string list) option" where
  "canongraph v nauty s = do {
     sg \<leftarrow> fill_sg s;
     let r = nauty sg;
     Some (canong_e r,
           if v = Planar \<and> errstatus r \<noteq> 0 then [''**Oh no, nauty error''] else [])
   }"

subsection \<open>The driver\<close>

text \<open>
  The locals of \<^verbatim>\<open>main\<close>, and the error stream. \<open>nsuccess\<close> is a number in
  \<^verbatim>\<open>planar.cc\<close> and a vector indexed by the hexagon count in \<^verbatim>\<open>planar-fast.cc\<close>.
  The text that \<^verbatim>\<open>planar.cc\<close> writes to the standard output is not modelled, the
  assertion inside its printing of a graph is.
\<close>

record 't config =
  G :: GraphState
  graphStack :: "GraphState list"
  pop :: bool
  canonslns :: "int list set"
  nsuccess :: 't
  cerr :: "string list"

datatype 'a flow = Break 'a | Continue 'a

text \<open>An \<^verbatim>\<open>int\<close> compared with a \<^verbatim>\<open>size_t\<close> is converted to it first (64 bits).\<close>

definition as_size_t :: "int \<Rightarrow> int" where
  "as_size_t i = i mod 2 ^ 64"

definition main_init :: "'t \<Rightarrow> 't config" where
  "main_init ns = \<lparr>G = GraphState_init, graphStack = [], pop = False, canonslns = {},
                   nsuccess = ns, cerr = []\<rparr>"

text \<open>\<^verbatim>\<open>vector<int> nsuccess(MAX_FACES - 6)\<close> throws on a negative length.\<close>

definition main_init_fast :: "int \<Rightarrow> int list config option" where
  "main_init_fast MAX_FACES =
     (if MAX_FACES - 6 < 0 then None else Some (main_init (replicate (nat (MAX_FACES - 6)) 0)))"

text \<open>The block \<^verbatim>\<open>if (pop) { ... }\<close> at the head of the loop.\<close>

definition main_restore :: "'t config \<Rightarrow> 't config flow" where
  "main_restore c =
     (if pop c then
        if graphStack c = [] then Break c
        else Continue (c\<lparr>G := last (graphStack c), graphStack := butlast (graphStack c),
                          pop := False\<rparr>)
      else Continue c)"

text \<open>
  \<^verbatim>\<open>incMethod\<close>, the push of the snapshot and \<^verbatim>\<open>addEdges\<close>. The flag says whether a
  move was applied.
\<close>

definition main_try :: "variant \<Rightarrow> 't config \<Rightarrow> ('t config \<times> bool) option" where
  "main_try v c = do {
     (found, g) \<leftarrow> incMethod v (G c);
     if \<not> found then Some (c\<lparr>G := g, pop := True\<rparr>, False)
     else do {
       let c = c\<lparr>G := g, graphStack := graphStack c @ [g]\<rparr>;
       (g, w) \<leftarrow> addEdges v g (chosenFace g) (medgadd g);
       Some (c\<lparr>G := g, cerr := cerr c @ w\<rparr>, True)
     }
   }"

text \<open>The three checks on a map that is still open, and the choice of the next face.\<close>

definition main_open :: "variant \<Rightarrow> int \<Rightarrow> 't config \<Rightarrow> 't config option" where
  "main_open v MAX_FACES c =
     (if int (length (graphStack c)) > as_size_t (MAX_FACES - 4) then Some (c\<lparr>pop := True\<rparr>)
      else if length (openfaces (G c)) = 1 then Some (c\<lparr>pop := True\<rparr>)
      else do {
        ok \<leftarrow> sizecheck v (G c);
        if \<not> ok then Some (c\<lparr>pop := True\<rparr>)
        else do { g \<leftarrow> chooseFace (G c); Some (c\<lparr>G := g\<rparr>) }
      })"

text \<open>What \<^verbatim>\<open>planar-fast.cc\<close> does after \<^verbatim>\<open>addEdges\<close>.\<close>

definition main_after_fast :: "canon_oracle \<Rightarrow> int \<Rightarrow> int list config \<Rightarrow> int list config option" where
  "main_after_fast nauty MAX_FACES c =
     (if openfaces (G c) = [] then do {
        fin \<leftarrow> sizefinal Fast (G c);
        c \<leftarrow> (if fin \<and> int (length (faces (G c))) \<le> as_size_t MAX_FACES then do {
                 (canon, w) \<leftarrow> canongraph Fast nauty (G c);
                 let c = c\<lparr>cerr := cerr c @ w\<rparr>;
                 if canon \<notin> canonslns c then do {
                   ns \<leftarrow> incr_at (nsuccess c) (nhex (G c));
                   Some (c\<lparr>canonslns := insert canon (canonslns c), nsuccess := ns\<rparr>)
                 } else Some c
               } else Some c);
        Some (c\<lparr>pop := True\<rparr>)
      }
      else main_open Fast MAX_FACES c)"

text \<open>
  \<^verbatim>\<open>printnbrs\<close>, called by the output operator of \<^verbatim>\<open>planar.cc\<close> for face 0 and for
  every face of length 4: each edge of the face has to lie on exactly one other face.
\<close>

definition printnbrs :: "GraphState \<Rightarrow> nat \<Rightarrow> unit option" where
  "printnbrs s face = do {
     F \<leftarrow> idx (faces s) face;
     if \<forall>e\<in>set F.
          length (filter (\<lambda>f. f \<noteq> face \<and> e \<in> set (faces s ! f)) [0..<length (faces s)]) = 1
     then Some () else None
   }"

fun printnbrs_all :: "GraphState \<Rightarrow> nat list \<Rightarrow> unit option" where
  "printnbrs_all s [] = Some ()"
| "printnbrs_all s (i # js) = do {
     (if length (faces s ! i) = 4 then printnbrs s i else Some ());
     printnbrs_all s js
   }"

definition print_graph :: "GraphState \<Rightarrow> unit option" where
  "print_graph s = do { printnbrs s 0; printnbrs_all s [0..<length (faces s)] }"

text \<open>The extra pruning rule of \<^verbatim>\<open>planar.cc\<close>, on faces 2 and 3.\<close>

definition symmetry_prune :: "GraphState \<Rightarrow> bool option" where
  "symmetry_prune g = do {
     f2 \<leftarrow> idx (faces g) 2;
     if length f2 > 4 then
       if 3 \<notin> set (openfaces g) then do {
         f3 \<leftarrow> idx (faces g) 3;
         Some (length f3 < length f2)
       } else Some False
     else Some False
   }"

definition main_after_planar :: "canon_oracle \<Rightarrow> int \<Rightarrow> nat config \<Rightarrow> nat config option" where
  "main_after_planar nauty MAX_FACES c = do {
     sp \<leftarrow> symmetry_prune (G c);
     if sp then Some (c\<lparr>pop := True\<rparr>)
     else if openfaces (G c) = [] then
       (let c = c\<lparr>pop := True\<rparr> in
        if int (length (faces (G c))) > as_size_t MAX_FACES then Some c
        else do {
          fin \<leftarrow> sizefinal Planar (G c);
          if fin then do {
            (canon, w) \<leftarrow> canongraph Planar nauty (G c);
            let c = c\<lparr>cerr := cerr c @ w\<rparr>;
            if canon \<notin> canonslns c then do {
              let c = c\<lparr>canonslns := insert canon (canonslns c), nsuccess := nsuccess c + 1\<rparr>;
              print_graph (G c);
              Some c
            } else Some c
          } else Some c
        })
     else main_open Planar MAX_FACES c
   }"

text \<open>One turn of the loop \<^verbatim>\<open>for(;;)\<close> of each program.\<close>

definition main_iter_fast :: "canon_oracle \<Rightarrow> int \<Rightarrow> int list config \<Rightarrow> int list config flow option" where
  "main_iter_fast nauty MAX_FACES c =
     (case main_restore c of
        Break c \<Rightarrow> Some (Break c)
      | Continue c \<Rightarrow> do {
          (c, applied) \<leftarrow> main_try Fast c;
          if applied then do { c \<leftarrow> main_after_fast nauty MAX_FACES c; Some (Continue c) }
          else Some (Continue c)
        })"

definition main_iter_planar :: "canon_oracle \<Rightarrow> int \<Rightarrow> nat config \<Rightarrow> nat config flow option" where
  "main_iter_planar nauty MAX_FACES c =
     (case main_restore c of
        Break c \<Rightarrow> Some (Break c)
      | Continue c \<Rightarrow> do {
          (c, applied) \<leftarrow> main_try Planar c;
          if applied then do { c \<leftarrow> main_after_planar nauty MAX_FACES c; Some (Continue c) }
          else Some (Continue c)
        })"

text \<open>
  The loop: \<open>runs step c r\<close> when the loop started in \<open>c\<close> leaves through its
  \<^verbatim>\<open>break\<close> in \<open>r\<close>; \<open>reaches step c c'\<close> when it comes to the head of the loop in
  \<open>c'\<close>.
\<close>

inductive runs :: "('c \<Rightarrow> 'c flow option) \<Rightarrow> 'c \<Rightarrow> 'c \<Rightarrow> bool" for step where
  runs_break: "step c = Some (Break r) \<Longrightarrow> runs step c r"
| runs_continue: "step c = Some (Continue c') \<Longrightarrow> runs step c' r \<Longrightarrow> runs step c r"

inductive reaches :: "('c \<Rightarrow> 'c flow option) \<Rightarrow> 'c \<Rightarrow> 'c \<Rightarrow> bool" for step where
  reaches_start: "reaches step c c"
| reaches_step: "reaches step c c' \<Longrightarrow> step c' = Some (Continue c'') \<Longrightarrow> reaches step c c''"

subsection \<open>Sample states\<close>

text \<open>
  The first map that the search of \<^verbatim>\<open>planar.cc\<close> completes and accepts (any bound from
  10 on): 14 vertices, 21 edges, 9 faces.
\<close>

definition accepted_example :: GraphState where
  "accepted_example =
     \<lparr>numverts = 14, nsq = 2, npent = 5, nhex = 1,
      edges = [mk_edge 1 2, mk_edge 2 3, mk_edge 1 3, mk_edge 3 4, mk_edge 4 5, mk_edge 5 6,
               mk_edge 6 7, mk_edge 7 1, mk_edge 7 8, mk_edge 8 9, mk_edge 9 2,
               mk_edge 9 10, mk_edge 10 4, mk_edge 8 11, mk_edge 11 12, mk_edge 12 10,
               mk_edge 12 13, mk_edge 13 5, mk_edge 6 14, mk_edge 14 11, mk_edge 14 13],
      faces = [[0, 1, 2], [2, 3, 4, 5, 6, 7], [7, 0, 10, 9, 8], [10, 1, 3, 12, 11],
               [15, 12, 4, 17, 16], [17, 5, 18, 20], [6, 8, 13, 19, 18],
               [9, 11, 15, 14, 13], [19, 14, 16, 20]],
      openfaces = [], medgadd = 1, chosenFace = 0\<rparr>"

text \<open>The same faces around a graph with one edge more: vertices 1 and 2 have degree 4.\<close>

definition uncubic_example :: GraphState where
  "uncubic_example = accepted_example\<lparr>edges := edges accepted_example @ [mk_edge 1 2]\<rparr>"

text \<open>The loop run for at most a given number of turns.\<close>

fun run_turns :: "nat \<Rightarrow> ('c \<Rightarrow> 'c flow option) \<Rightarrow> 'c \<Rightarrow> 'c option" where
  "run_turns 0 step c = None"
| "run_turns (Suc k) step c =
     (case step c of
        None \<Rightarrow> None
      | Some (Break r) \<Rightarrow> Some r
      | Some (Continue c') \<Rightarrow> run_turns k step c')"

text \<open>
  A configuration that \<^verbatim>\<open>main\<close> of \<^verbatim>\<open>planar.cc\<close> is in after \<^verbatim>\<open>addEdges\<close> (its
  185th move at \<^verbatim>\<open>MAX_FACES\<close> 10): move 5 on the seed, then move 1 on the face chosen
  next.
\<close>

definition pruned_example :: "nat config" where
  "pruned_example =
     \<lparr>G = \<lparr>numverts = 9, nsq = 1, npent = 1, nhex = 1,
            edges = [mk_edge 1 2, mk_edge 2 3, mk_edge 1 3, mk_edge 3 4, mk_edge 4 5,
                     mk_edge 5 6, mk_edge 6 7, mk_edge 7 1, mk_edge 7 8, mk_edge 8 9,
                     mk_edge 9 2, mk_edge 9 4],
            faces = [[0, 1, 2], [2, 3, 4, 5, 6, 7], [7, 0, 10, 9, 8], [10, 1, 3, 11],
                     [5], [6, 8], [9, 11, 4]],
            openfaces = [6, 4, 5], medgadd = 1, chosenFace = 1\<rparr>,
      graphStack =
        [GraphState_init\<lparr>medgadd := 5\<rparr>,
         \<lparr>numverts = 9, nsq = 0, npent = 1, nhex = 1,
            edges = [mk_edge 1 2, mk_edge 2 3, mk_edge 1 3, mk_edge 3 4, mk_edge 4 5,
                     mk_edge 5 6, mk_edge 6 7, mk_edge 7 1, mk_edge 7 8, mk_edge 8 9,
                     mk_edge 9 2],
            faces = [[0, 1, 2], [2, 3, 4, 5, 6, 7], [7, 0, 10, 9, 8], [10, 1, 3], [4],
                     [5], [6, 8], [9]],
            openfaces = [7, 3, 4, 5, 6], medgadd = 1, chosenFace = 1\<rparr>],
      pop = False, canonslns = {}, nsuccess = 0, cerr = []\<rparr>"

text \<open>An oracle for the examples: no error, the edge array as it came.\<close>

definition echo_oracle :: canon_oracle where
  "echo_oracle sg = \<lparr>errstatus = 0, canong_e = sg_e sg\<rparr>"

text \<open>An oracle that reports an error and leaves one number in \<^verbatim>\<open>canong\<close>.\<close>

definition failing_oracle :: canon_oracle where
  "failing_oracle sg = \<lparr>errstatus = 1, canong_e = [0]\<rparr>"

subsection \<open>The open-boundary sequence as a cycle\<close>

text \<open>
  \<open>cyc_remove xs a k\<close> is \<open>xs\<close> without the \<open>k\<close> entries at the cyclic positions
  \<open>a, a + 1, ..., a + k - 1\<close> (the set \<open>keep\<close> of the positions that stay), in the order
  that the calls of \<^verbatim>\<open>erase\<close> in \<^verbatim>\<open>addEdges\<close> leave. \<open>place s oF k\<close> is the face that the
  entry \<open>k\<close> steps after position \<open>oF\<close> refers to.
\<close>

definition cyc_remove :: "'a list \<Rightarrow> nat \<Rightarrow> nat \<Rightarrow> 'a list" where
  "cyc_remove xs a k =
     (if a + k \<le> length xs then take a xs @ drop (a + k) xs
      else drop (a + k - length xs) (take a xs))"

definition keep :: "nat \<Rightarrow> nat \<Rightarrow> nat \<Rightarrow> nat set" where
  "keep n a k = {i. \<forall>j<k. i \<noteq> (a + j) mod n}"

definition place :: "GraphState \<Rightarrow> nat \<Rightarrow> nat \<Rightarrow> nat" where
  "place s oF k = openfaces s ! ((oF + k) mod length (openfaces s))"

subsection \<open>Properties of a state\<close>

text \<open>
  \<open>refs_ok\<close>: the entries of the open-boundary sequence are distinct indices into the
  face sequence. \<open>tri_ok\<close>: face 0 is closed and has three edges, every other closed
  face has 4, 5 or 6. \<open>euler_ok\<close>: with \<open>V\<close> vertices, \<open>E\<close> edges, \<open>F\<close> faces and \<open>n\<close> open
  faces, \<open>V - 2 F + n = -2\<close> and \<open>E - 3 F + 2 n = -3\<close> while the map is open, and
  \<open>V - 2 F = -4\<close>, \<open>E - 3 F = -6\<close> once it is closed.
\<close>

definition refs_ok :: "GraphState \<Rightarrow> bool" where
  "refs_ok s \<longleftrightarrow> distinct (openfaces s) \<and> (\<forall>f\<in>set (openfaces s). f < length (faces s))"

definition tri_ok :: "GraphState \<Rightarrow> bool" where
  "tri_ok s \<longleftrightarrow> 0 < length (faces s) \<and> 0 \<notin> set (openfaces s) \<and> length (faces s ! 0) = 3
     \<and> (\<forall>i. 0 < i \<and> i < length (faces s) \<and> i \<notin> set (openfaces s)
            \<longrightarrow> length (faces s ! i) \<in> {4, 5, 6})"

definition euler_rel :: "int \<Rightarrow> int \<Rightarrow> int \<Rightarrow> int \<Rightarrow> bool" where
  "euler_rel V E F n \<longleftrightarrow>
     (if n = 0 then V - 2 * F = - 4 \<and> E - 3 * F = - 6
      else V - 2 * F + n = - 2 \<and> E - 3 * F + 2 * n = - 3)"

definition euler_ok :: "GraphState \<Rightarrow> bool" where
  "euler_ok s \<longleftrightarrow>
     euler_rel (numverts s) (int (length (edges s))) (int (length (faces s)))
       (int (length (openfaces s)))"

text \<open>
  What a case of the switch of \<^verbatim>\<open>addEdges\<close> does to a state \<open>s\<close>, giving \<open>s1\<close> and the
  vector \<open>te\<close>: the open faces of \<open>s1\<close> are open faces of \<open>s\<close> and the new faces, the
  closed faces of \<open>s\<close> are untouched, \<open>te\<close> names faces that were open and are no
  longer referred to, and every other face that left the open-boundary sequence has
  4, 5 or 6 edges. \<open>effect_ok\<close> adds that nothing was written to the error stream,
  that the chosen face \<open>fF\<close> has 4, 5 or 6 edges, and the counts after the faces of
  \<open>te\<close> are removed.
\<close>

definition switch_ok :: "GraphState \<Rightarrow> GraphState \<Rightarrow> nat list \<Rightarrow> bool" where
  "switch_ok s s1 te \<longleftrightarrow>
     distinct (openfaces s1) \<and> length (faces s) \<le> length (faces s1)
     \<and> set (openfaces s1) \<subseteq> set (openfaces s) \<union> {length (faces s)..<length (faces s1)}
     \<and> {length (faces s)..<length (faces s1)} \<subseteq> set (openfaces s1)
     \<and> (\<forall>i<length (faces s). i \<notin> set (openfaces s) \<longrightarrow> faces s1 ! i = faces s ! i)
     \<and> distinct te \<and> set te \<subseteq> set (openfaces s) - set (openfaces s1)
     \<and> (\<forall>i\<in>set (openfaces s) - set (openfaces s1) - set te. length (faces s1 ! i) \<in> {4, 5, 6})"

definition effect_ok :: "GraphState \<Rightarrow> GraphState \<Rightarrow> nat list \<Rightarrow> string list \<Rightarrow> nat \<Rightarrow> bool" where
  "effect_ok s s1 te w fF \<longleftrightarrow>
     switch_ok s s1 te \<and> w = [] \<and> length (faces s1 ! fF) \<in> {4, 5, 6}
     \<and> (euler_ok s \<longrightarrow>
          euler_rel (numverts s1) (int (length (edges s1)))
            (int (length (faces s1)) - int (length te)) (int (length (openfaces s1))))"

subsection \<open>Properties of a configuration of the driver\<close>

text \<open>
  \<open>head_ok\<close> is what \<^verbatim>\<open>incMethod\<close> and \<^verbatim>\<open>addEdges\<close> find when the driver calls them: at
  least two open faces and the chosen position among them. \<open>quiet\<close>: the message of
  the default branch of \<^verbatim>\<open>countFace\<close> is not in the error stream. \<open>cfg_inv\<close> holds at
  the head of the loop, \<open>mid_inv\<close> between \<^verbatim>\<open>addEdges\<close> and the checks that follow it.
\<close>

definition st_inv :: "GraphState \<Rightarrow> bool" where
  "st_inv s \<longleftrightarrow> refs_ok s \<and> tri_ok s \<and> euler_ok s"

definition head_ok :: "GraphState \<Rightarrow> bool" where
  "head_ok s \<longleftrightarrow> st_inv s \<and> 2 \<le> length (openfaces s) \<and> chosenFace s < length (openfaces s)"

definition quiet :: "string list \<Rightarrow> bool" where
  "quiet err \<longleftrightarrow> ''**Face of size!'' \<notin> set err"

definition mid_inv :: "'t config \<Rightarrow> bool" where
  "mid_inv c \<longleftrightarrow> st_inv (G c) \<and> (\<forall>g\<in>set (graphStack c). head_ok g) \<and> quiet (cerr c)"

definition cfg_inv :: "'t config \<Rightarrow> bool" where
  "cfg_inv c \<longleftrightarrow> mid_inv c \<and> (\<not> pop c \<longrightarrow> head_ok (G c))"

text \<open>
  The measure of the search. The stack is never deeper than \<open>depth_bound M + 1\<close>. The
  key of a configuration lists, from the bottom of the stack, how many move ids each
  stacked state has left (\<open>11 - medgadd\<close>), then 12 for a state on which no move was
  tried yet, then zeros. Every turn of the loop makes the key smaller in the
  lexicographic order.
\<close>

definition pad :: "nat \<Rightarrow> nat list \<Rightarrow> nat list" where
  "pad n ds = ds @ replicate (n - length ds) 0"

definition depth_bound :: "int \<Rightarrow> nat" where
  "depth_bound M = nat (as_size_t (M - 4))"

definition search_key :: "int \<Rightarrow> 't config \<Rightarrow> nat list" where
  "search_key M c =
     pad (depth_bound M + 1)
       (map (\<lambda>g. 11 - medgadd g) (graphStack c) @ (if pop c then [] else [12]))"

definition depth_inv :: "int \<Rightarrow> 't config \<Rightarrow> bool" where
  "depth_inv M c \<longleftrightarrow>
     length (graphStack c) \<le> depth_bound M + 1
     \<and> (\<forall>g\<in>set (graphStack c). medgadd g \<le> 10)
     \<and> (\<not> pop c \<longrightarrow> length (graphStack c) \<le> depth_bound M \<and> medgadd (G c) = 0)"

subsection \<open>Sample runs\<close>

text \<open>\<open>turns k step c\<close>: the configuration at the head of the loop after \<open>k\<close> turns.\<close>

fun turns :: "nat \<Rightarrow> ('c \<Rightarrow> 'c flow option) \<Rightarrow> 'c \<Rightarrow> 'c option" where
  "turns 0 step c = Some c"
| "turns (Suc k) step c =
     (case step c of
        Some (Continue c') \<Rightarrow> turns k step c'
      | _ \<Rightarrow> None)"

text \<open>
  The configuration in which either search, at \<^verbatim>\<open>MAX_FACES\<close> 9, is about to complete
  its first map: \<^verbatim>\<open>planar-fast.cc\<close> after 169 turns of the loop, \<^verbatim>\<open>planar.cc\<close> after
  140. Two open faces are left; move 1 closes both and gives \<open>accepted_example\<close>.
\<close>

definition accepting_config :: "'t \<Rightarrow> 't config" where
  "accepting_config ns =
     \<lparr>G =
        \<lparr>numverts = 14, nsq = 0, npent = 5, nhex = 1,
         edges = [mk_edge 1 2, mk_edge 2 3, mk_edge 1 3, mk_edge 3 4, mk_edge 4 5, mk_edge 5 6,
            mk_edge 6 7, mk_edge 7 1, mk_edge 7 8, mk_edge 8 9, mk_edge 9 2, mk_edge 9 10,
            mk_edge 10 4, mk_edge 8 11, mk_edge 11 12, mk_edge 12 10, mk_edge 12 13,
            mk_edge 13 5, mk_edge 6 14, mk_edge 14 11],
         faces = [[0, 1, 2], [2, 3, 4, 5, 6, 7], [7, 0, 10, 9, 8], [10, 1, 3, 12, 11], [15, 12,
            4, 17, 16], [17, 5, 18], [6, 8, 13, 19, 18], [9, 11, 15, 14, 13], [19, 14, 16]],
         openfaces = [8, 5], medgadd = 0, chosenFace = 0\<rparr>,
      graphStack =
       [\<lparr>numverts = 7, nsq = 0, npent = 0, nhex = 1,
         edges = [mk_edge 1 2, mk_edge 2 3, mk_edge 1 3, mk_edge 3 4, mk_edge 4 5, mk_edge 5 6,
            mk_edge 6 7, mk_edge 7 1],
         faces = [[0, 1, 2], [2, 3, 4, 5, 6, 7], [7, 0], [1, 3], [4], [5], [6]],
         openfaces = [2, 3, 4, 5, 6], medgadd = 5, chosenFace = 0\<rparr>,
        \<lparr>numverts = 9, nsq = 0, npent = 1, nhex = 1,
         edges = [mk_edge 1 2, mk_edge 2 3, mk_edge 1 3, mk_edge 3 4, mk_edge 4 5, mk_edge 5 6,
            mk_edge 6 7, mk_edge 7 1, mk_edge 7 8, mk_edge 8 9, mk_edge 9 2],
         faces = [[0, 1, 2], [2, 3, 4, 5, 6, 7], [7, 0, 10, 9, 8], [10, 1, 3], [4], [5], [6,
            8], [9]],
         openfaces = [7, 3, 4, 5, 6], medgadd = 2, chosenFace = 1\<rparr>,
        \<lparr>numverts = 10, nsq = 0, npent = 2, nhex = 1,
         edges = [mk_edge 1 2, mk_edge 2 3, mk_edge 1 3, mk_edge 3 4, mk_edge 4 5, mk_edge 5 6,
            mk_edge 6 7, mk_edge 7 1, mk_edge 7 8, mk_edge 8 9, mk_edge 9 2, mk_edge 9 10,
            mk_edge 10 4],
         faces = [[0, 1, 2], [2, 3, 4, 5, 6, 7], [7, 0, 10, 9, 8], [10, 1, 3, 12, 11], [12, 4],
            [5], [6, 8], [9, 11]],
         openfaces = [7, 4, 5, 6], medgadd = 5, chosenFace = 0\<rparr>,
        \<lparr>numverts = 12, nsq = 0, npent = 3, nhex = 1,
         edges = [mk_edge 1 2, mk_edge 2 3, mk_edge 1 3, mk_edge 3 4, mk_edge 4 5, mk_edge 5 6,
            mk_edge 6 7, mk_edge 7 1, mk_edge 7 8, mk_edge 8 9, mk_edge 9 2, mk_edge 9 10,
            mk_edge 10 4, mk_edge 8 11, mk_edge 11 12, mk_edge 12 10],
         faces = [[0, 1, 2], [2, 3, 4, 5, 6, 7], [7, 0, 10, 9, 8], [10, 1, 3, 12, 11], [15, 12,
            4], [5], [6, 8, 13], [9, 11, 15, 14, 13], [14]],
         openfaces = [8, 4, 5, 6], medgadd = 2, chosenFace = 1\<rparr>,
        \<lparr>numverts = 13, nsq = 0, npent = 4, nhex = 1,
         edges = [mk_edge 1 2, mk_edge 2 3, mk_edge 1 3, mk_edge 3 4, mk_edge 4 5, mk_edge 5 6,
            mk_edge 6 7, mk_edge 7 1, mk_edge 7 8, mk_edge 8 9, mk_edge 9 2, mk_edge 9 10,
            mk_edge 10 4, mk_edge 8 11, mk_edge 11 12, mk_edge 12 10, mk_edge 12 13,
            mk_edge 13 5],
         faces = [[0, 1, 2], [2, 3, 4, 5, 6, 7], [7, 0, 10, 9, 8], [10, 1, 3, 12, 11], [15, 12,
            4, 17, 16], [17, 5], [6, 8, 13], [9, 11, 15, 14, 13], [14, 16]],
         openfaces = [8, 5, 6], medgadd = 2, chosenFace = 2\<rparr>],
      pop = False, canonslns = {}, nsuccess = ns, cerr = []\<rparr>"

text \<open>
  The seed with open faces 2, 4 and 6 only, after its faces 5 and 3 were removed.
\<close>

definition renumbered_example :: GraphState where
  "renumbered_example = GraphState_init\<lparr>faces := [[0, 1, 2], [2, 3, 4, 5, 6, 7], [7, 0], [4], [6]],
                                          openfaces := [2, 3, 4]\<rparr>"

text \<open>
  The configuration in which both searches end at \<^verbatim>\<open>MAX_FACES\<close> 9, given the tallies
  \<open>ns\<close>, when the oracle returns the edge array it was given: one encoding is
  registered.
\<close>

definition search_result_9 :: "'t \<Rightarrow> 't config" where
  "search_result_9 ns =
     \<lparr>G = GraphState_init\<lparr>medgadd := 11\<rparr>, graphStack = [], pop = True,
      canonslns = {[1, 2, 6, 0, 2, 8, 1, 0, 3, 2, 4, 9, 3, 5, 12, 4, 6, 13, 5, 0, 7, 6, 8, 10,
                    7, 1, 9, 8, 3, 11, 7, 11, 13, 10, 9, 12, 11, 4, 13, 5, 10, 12]},
      nsuccess = ns, cerr = []\<rparr>"

(* PROPERTIES *)

section \<open>The seed\<close>

text \<open>
  C3, as the code has it: the seed has 7 vertices, 8 edges and 7 faces, 5 of them open
  (of lengths 2, 2, 1, 1, 1) and 2 closed; the closed ones are the triangle and a
  hexagon of length 6, which the counter \<open>nhex\<close> already counts.
\<close>

theorem seed_shape:
  "numverts GraphState_init = 7 \<and> length (edges GraphState_init) = 8
   \<and> length (faces GraphState_init) = 7 \<and> length (openfaces GraphState_init) = 5
   \<and> map length (closedFaces GraphState_init) = [3, 6]
   \<and> map length (openFaces GraphState_init) = [2, 2, 1, 1, 1]
   \<and> nhex GraphState_init = 1"
  by (simp add: GraphState_init_def closedFaces_def openFaces_def upt_rec)

text \<open>C3 as the specification words it fails: no closed face of the seed has length 2.\<close>

theorem seed_closed_lengths_counterexample:
  "\<not> (numverts GraphState_init = 7 \<and> length (edges GraphState_init) = 8
      \<and> length (faces GraphState_init) = 7 \<and> length (openfaces GraphState_init) = 5
      \<and> length (closedFaces GraphState_init) = 2
      \<and> sort (map length (closedFaces GraphState_init)) = [2, 3])"
  by (simp add: GraphState_init_def closedFaces_def upt_rec)

section \<open>The face selector\<close>

lemma openface_Some:
  "k < length (openfaces s) \<Longrightarrow> openfaces s ! k < length (faces s) \<Longrightarrow>
   openface s k = Some (faces s ! (openfaces s ! k))"
  by (simp add: openface_def idx_def)

lemma chooseFace_loop_upt:
  assumes refs: "\<forall>k<length (openfaces s). openfaces s ! k < length (faces s)"
    and "cf < a" "a \<le> b" "b \<le> length (openfaces s)"
    and "\<forall>k<a. length (faces s ! (openfaces s ! k)) \<le> length (faces s ! (openfaces s ! cf))"
    and "\<forall>k<cf. length (faces s ! (openfaces s ! k)) < length (faces s ! (openfaces s ! cf))"
  shows "\<exists>c. chooseFace_loop s [a..<b] cf = Some c \<and> c < b
      \<and> (\<forall>k<b. length (faces s ! (openfaces s ! k)) \<le> length (faces s ! (openfaces s ! c)))
      \<and> (\<forall>k<c. length (faces s ! (openfaces s ! k)) < length (faces s ! (openfaces s ! c)))"
  using assms(2-)
proof (induction "b - a" arbitrary: a cf)
  case 0
  then show ?case by auto
next
  case (Suc d)
  let ?L = "\<lambda>k. length (faces s ! (openfaces s ! k))"
  from Suc.hyps(2) have ab: "a < b" by simp
  then have upt: "[a..<b] = a # [Suc a..<b]" by (simp add: upt_conv_Cons)
  have oa: "openface s a = Some (faces s ! (openfaces s ! a))"
    using refs ab Suc.prems by (simp add: openface_Some)
  have oc: "openface s cf = Some (faces s ! (openfaces s ! cf))"
    using refs ab Suc.prems by (simp add: openface_Some)
  let ?c = "if ?L a > ?L cf then a else cf"
  have step: "chooseFace_loop s [a..<b] cf = chooseFace_loop s [Suc a..<b] ?c"
    by (simp add: upt oa oc)
  have d: "d = b - Suc a" using Suc.hyps(2) by simp
  have c1: "?c < Suc a" using Suc.prems by simp
  have c2: "\<forall>k<Suc a. ?L k \<le> ?L ?c"
    using Suc.prems(4) by (auto simp: less_Suc_eq)
  have c3: "\<forall>k<?c. ?L k < ?L ?c"
    using Suc.prems(4,5) by (auto simp: less_Suc_eq) 
  from Suc.hyps(1)[OF d c1 _ Suc.prems(3) c2 c3] ab
  show ?case unfolding step by simp
qed

text \<open>
  C6: on a state whose open-boundary sequence is not empty and refers to existing faces,
  \<open>chooseFace\<close> returns the state with \<open>chosenFace\<close> at a position of an open face of
  greatest length, every earlier position holding a strictly shorter face, and with
  \<open>medgadd\<close> back at 0.
\<close>

theorem chooseFace_longest_first:
  assumes "openfaces s \<noteq> []"
    and "\<forall>k<length (openfaces s). openfaces s ! k < length (faces s)"
  shows "\<exists>c. chooseFace s = Some (s\<lparr>chosenFace := c, medgadd := 0\<rparr>)
      \<and> c < length (openfaces s)
      \<and> (\<forall>k<length (openfaces s).
            length (faces s ! (openfaces s ! k)) \<le> length (faces s ! (openfaces s ! c)))
      \<and> (\<forall>k<c. length (faces s ! (openfaces s ! k)) < length (faces s ! (openfaces s ! c)))"
proof -
  have n: "1 \<le> length (openfaces s)" using assms(1) by (cases "openfaces s") auto
  from chooseFace_loop_upt[OF assms(2), of 0 1 "length (openfaces s)"] n
  obtain c where "chooseFace_loop s [1..<length (openfaces s)] 0 = Some c" "c < length (openfaces s)"
      "(\<forall>k<length (openfaces s).
            length (faces s ! (openfaces s ! k)) \<le> length (faces s ! (openfaces s ! c)))"
      "(\<forall>k<c. length (faces s ! (openfaces s ! k)) < length (faces s ! (openfaces s ! c)))"
    by auto
  then show ?thesis by (auto simp: chooseFace_def)
qed


theorem chooseFace_longest_first_witness:
  "openfaces GraphState_init \<noteq> []
   \<and> (\<exists>c. chooseFace GraphState_init = Some (GraphState_init\<lparr>chosenFace := c, medgadd := 0\<rparr>)
          \<and> c = 0)"
  using chooseFace_longest_first[of GraphState_init]
  by (auto simp: GraphState_init_def nth_Cons' less_Suc_eq numeral_eq_Suc split: if_splits)

section \<open>The scan for the next legal move\<close>

lemma isValid_medgadd [simp]: "isValid v (s\<lparr>medgadd := k\<rparr>) oF m = isValid v s oF m"
  by (simp add: isValid_def openface_def)

lemma isValid_defined_any:
  "isValid v s oF m \<noteq> None \<Longrightarrow> isValid v s oF m' \<noteq> None"
  by (auto simp: isValid_def Let_def split: Option.bind_splits)

lemma isValid_beyond:
  "NUM_METH < m \<Longrightarrow> isValid v s oF m \<noteq> Some True"
  by (auto simp: isValid_def Let_def isValid_switch_def NUM_METH_def split: Option.bind_splits)

lemma isValid_zero: "isValid v s oF 0 \<noteq> Some True"
  by (auto simp: isValid_def Let_def isValid_switch_def split: Option.bind_splits)

text \<open>
  C7: where \<open>isValid\<close> is defined for the chosen face (the seven neighbour references
  exist and, in \<^verbatim>\<open>planar.cc\<close>, the assertion on the face holds), \<open>incMethod\<close> returns
  true with \<open>medgadd\<close> at the least legal move id above the old \<open>medgadd\<close>, and false
  when there is none, then leaving \<open>medgadd\<close> at 11 (or higher, if it was so). A legal
  id is always one of 1..10.
\<close>

theorem incMethod_first_legal:
  assumes "isValid v s (chosenFace s) 0 \<noteq> None"
  shows "incMethod v s =
     (if \<exists>m. medgadd s < m \<and> isValid v s (chosenFace s) m = Some True
      then Some (True, s\<lparr>medgadd := (LEAST m. medgadd s < m \<and> isValid v s (chosenFace s) m = Some True)\<rparr>)
      else Some (False, s\<lparr>medgadd := max (medgadd s) (NUM_METH + 1)\<rparr>))
     \<and> (\<forall>m. isValid v s (chosenFace s) m = Some True \<longrightarrow> 1 \<le> m \<and> m \<le> NUM_METH)"
proof
  show "\<forall>m. isValid v s (chosenFace s) m = Some True \<longrightarrow> 1 \<le> m \<and> m \<le> NUM_METH"
    using isValid_beyond[of _ v s "chosenFace s"] isValid_zero[of v s "chosenFace s"]
    by (metis One_nat_def Suc_leI not_le_imp_less not_gr_zero)
  show "incMethod v s =
     (if \<exists>m. medgadd s < m \<and> isValid v s (chosenFace s) m = Some True
      then Some (True, s\<lparr>medgadd := (LEAST m. medgadd s < m \<and> isValid v s (chosenFace s) m = Some True)\<rparr>)
      else Some (False, s\<lparr>medgadd := max (medgadd s) (NUM_METH + 1)\<rparr>))"
  using assms
proof (induction v s rule: incMethod.induct)
  case (1 v s)
  let ?V = "\<lambda>m. isValid v s (chosenFace s) m"
  show ?case
  proof (cases "medgadd s \<le> NUM_METH")
    case False
    then have "\<not> (\<exists>m. medgadd s < m \<and> ?V m = Some True)"
      using isValid_beyond[of _ v s "chosenFace s"] by auto
    moreover have "incMethod v s = Some (False, s)" using False by simp
    moreover have "s\<lparr>medgadd := max (medgadd s) (NUM_METH + 1)\<rparr> = s" using False by (simp add: max_def)
    ultimately show ?thesis by (simp del: incMethod.simps)
  next
    case le: True
    let ?s1 = "s\<lparr>medgadd := medgadd s + 1\<rparr>"
    from "1.prems" have dn: "?V (medgadd s + 1) \<noteq> None" by (rule isValid_defined_any)
    show ?thesis
    proof (cases "?V (medgadd s + 1) = Some True")
      case True
      have "(LEAST m. medgadd s < m \<and> ?V m = Some True) = medgadd s + 1"
        by (rule Least_equality) (use True in auto)
      moreover have "incMethod v s = Some (True, ?s1)"
        using le True by simp
      moreover have "\<exists>m. medgadd s < m \<and> ?V m = Some True"
        using True by (intro exI[of _ "medgadd s + 1"]) simp
      ultimately show ?thesis by (simp del: incMethod.simps)
    next
      case False
      with dn have vf: "?V (medgadd s + 1) = Some False" by (cases "?V (medgadd s + 1)") auto
      have step: "incMethod v s = incMethod v ?s1" using le vf by simp
      have eqv: "(medgadd s < m \<and> ?V m = Some True) \<longleftrightarrow> (medgadd s + 1 < m \<and> ?V m = Some True)" for m
        using vf by (cases "m = medgadd s + 1") auto
      have ih: "incMethod v ?s1 =
         (if \<exists>m. medgadd ?s1 < m \<and> isValid v ?s1 (chosenFace ?s1) m = Some True
          then Some (True, ?s1\<lparr>medgadd := (LEAST m. medgadd ?s1 < m \<and> isValid v ?s1 (chosenFace ?s1) m = Some True)\<rparr>)
          else Some (False, ?s1\<lparr>medgadd := max (medgadd ?s1) (NUM_METH + 1)\<rparr>))"
        using "1.IH"[OF le refl _ refl] vf "1.prems" by simp
      have mx: "max (medgadd s + 1) (NUM_METH + 1) = max (medgadd s) (NUM_METH + 1)"
        using le by (simp add: max_def)
      show ?thesis unfolding step ih using mx by (simp add: eqv del: incMethod.simps)
    qed
  qed
qed
qed

theorem incMethod_first_legal_witness:
  "isValid Fast GraphState_init (chosenFace GraphState_init) 0 \<noteq> None
   \<and> incMethod Fast GraphState_init = Some (True, GraphState_init\<lparr>medgadd := 2\<rparr>)
   \<and> (LEAST m. medgadd GraphState_init < m
              \<and> isValid Fast GraphState_init (chosenFace GraphState_init) m = Some True) = 2"
proof -
  have d: "isValid Fast GraphState_init (chosenFace GraphState_init) 0 \<noteq> None" by code_simp
  have r: "incMethod Fast GraphState_init = Some (True, GraphState_init\<lparr>medgadd := 2\<rparr>)"
    by code_simp
  have e: "\<exists>m. medgadd GraphState_init < m
              \<and> isValid Fast GraphState_init (chosenFace GraphState_init) m = Some True"
    by (rule exI[of _ 2]) code_simp
  from incMethod_first_legal[OF d] e r
  have "GraphState_init\<lparr>medgadd := (LEAST m. medgadd GraphState_init < m
              \<and> isValid Fast GraphState_init (chosenFace GraphState_init) m = Some True)\<rparr>
        = GraphState_init\<lparr>medgadd := 2\<rparr>" by simp
  then have "medgadd (GraphState_init\<lparr>medgadd := (LEAST m. medgadd GraphState_init < m
              \<and> isValid Fast GraphState_init (chosenFace GraphState_init) m = Some True)\<rparr>)
        = medgadd (GraphState_init\<lparr>medgadd := 2\<rparr>)" by (rule arg_cong)
  then show ?thesis using d r by simp
qed

section \<open>The completion test\<close>

lemma tally_final_Inr:
  "tally_final Fs fl = Inr fl' \<Longrightarrow> length fl = 7 \<Longrightarrow>
     (\<forall>F\<in>set Fs. 3 \<le> length F \<and> length F \<le> 6) \<and> length fl' = 7
     \<and> (\<forall>k<7. fl' ! k = fl ! k + int (length (filter (\<lambda>F. length F = k) Fs)))"
proof (induction Fs arbitrary: fl)
  case Nil
  then show ?case by simp
next
  case (Cons F Fs)
  from Cons.prems(1) have rng: "3 \<le> length F" "length F \<le> 6"
    and rec: "tally_final Fs (fl[length F := fl ! length F + 1]) = Inr fl'"
    by (auto split: if_splits)
  from Cons.IH[OF rec] Cons.prems(2) rng
  show ?case by (auto simp: nth_list_update)
qed

lemma tally_final_Inl: "tally_final Fs fl = Inl b \<Longrightarrow> \<not> b"
  by (induction Fs arbitrary: fl) (auto split: if_splits)

lemma tally_final_total:
  "\<forall>F\<in>set Fs. 3 \<le> length F \<and> length F \<le> 6 \<Longrightarrow> \<exists>fl'. tally_final Fs fl = Inr fl'"
  by (induction Fs arbitrary: fl) auto

lemma degree_loop_Some:
  "degree_loop es vd = Some vd' \<Longrightarrow>
     length vd' = length vd \<and> (\<forall>i<length vd. vd' ! i = vd ! i + int (ends_at es (int i)))"
proof (induction es arbitrary: vd)
  case Nil
  then show ?case by (simp add: ends_at_def)
next
  case (Cons e es)
  from Cons.prems obtain a b where a: "incr_at vd (v1 e) = Some a" and b: "incr_at a (v2 e) = Some b"
    and rec: "degree_loop es b = Some vd'"
    by (auto split: Option.bind_splits)
  from a have a': "a = vd[nat (v1 e) := vd ! nat (v1 e) + 1]" "0 \<le> v1 e" "nat (v1 e) < length vd"
    by (auto simp: incr_at_def split: if_splits)
  from b have b': "b = a[nat (v2 e) := a ! nat (v2 e) + 1]" "0 \<le> v2 e" "nat (v2 e) < length a"
    by (auto simp: incr_at_def split: if_splits)
  have lb: "length b = length vd" using a' b' by simp
  have "b ! i = vd ! i + int (ends_at [e] (int i))" if "i < length vd" for i
    using that a' b' by (auto simp: nth_list_update ends_at_def)
  moreover have "ends_at (e # es) x = ends_at [e] x + ends_at es x" for x
    by (simp add: ends_at_def)
  ultimately show ?case using Cons.IH[OF rec] lb by simp
qed

lemma min_element_Some: "min_element xs = Some lo \<Longrightarrow> xs \<noteq> [] \<and> lo = Min (set xs)"
  using Min.set_eq_fold[of "hd xs" "tl xs"] by (cases xs) (auto simp: min_element_def)

lemma max_element_Some: "max_element xs = Some hi \<Longrightarrow> xs \<noteq> [] \<and> hi = Max (set xs)"
  using Max.set_eq_fold[of "hd xs" "tl xs"] by (cases xs) (auto simp: max_element_def)

lemma all_three:
  assumes "min_element xs = Some 3" "max_element xs = Some 3" "x \<in> set xs"
  shows "x = 3"
proof -
  have "Min (set xs) \<le> x" "x \<le> Max (set xs)" using assms(3) by auto
  with min_element_Some[OF assms(1)] max_element_Some[OF assms(2)] show ?thesis by simp
qed

lemma sizefinal_Planar_True:
  assumes "sizefinal Planar s = Some True"
  shows "(\<forall>F\<in>set (faces s). 3 \<le> length F \<and> length F \<le> 6)
     \<and> facesoflen_of s 3 = 1 \<and> facesoflen_of s 4 = 2 \<and> facesoflen_of s 5 = 5
     \<and> (\<forall>x. 1 \<le> x \<and> x \<le> numverts s \<longrightarrow> degree s x = 3)"
proof -
  from assms obtain fl where fl: "tally_final (faces s) (replicate 7 0) = Inr fl"
    by (auto simp: sizefinal_def split: sum.splits dest: tally_final_Inl)
  from tally_final_Inr[OF fl] have faces: "\<forall>F\<in>set (faces s). 3 \<le> length F \<and> length F \<le> 6"
    and cnt: "\<And>k. k < 7 \<Longrightarrow> fl ! k = int (facesoflen_of s k)"
    by (auto simp: facesoflen_of_def)
  from assms fl obtain vd lo hi where nv: "0 \<le> numverts s"
    and vd: "degree_loop (edges s) (replicate (nat (numverts s + 1)) 0) = Some vd"
    and lo: "min_element (tl vd) = Some lo" and hi: "max_element (tl vd) = Some hi"
    and lh: "lo = 3" "hi = 3"
    and prof: "fl ! 3 = N_TRI" "fl ! 4 = N_SQ" "fl ! 5 = N_PENT"
    by (auto simp: sizefinal_def split: Option.bind_splits if_splits)
  from degree_loop_Some[OF vd] have lvd: "length vd = nat (numverts s + 1)"
    and dg: "\<And>i. i < nat (numverts s + 1) \<Longrightarrow> vd ! i = int (ends_at (edges s) (int i))"
    by auto
  have "degree s x = 3" if x: "1 \<le> x" "x \<le> numverts s" for x
  proof -
    have i: "nat x < length vd" "nat x - 1 < length (tl vd)" using x lvd by auto
    have "tl vd ! (nat x - 1) = vd ! Suc (nat x - 1)" using i by (simp add: nth_tl)
    moreover have "Suc (nat x - 1) = nat x" using x by simp
    ultimately have "vd ! nat x \<in> set (tl vd)" using nth_mem[OF i(2)] by simp
    then have "vd ! nat x = 3" using all_three lo hi lh by blast
    moreover have "vd ! nat x = int (ends_at (edges s) x)" using dg[of "nat x"] i lvd x by simp
    ultimately show ?thesis by (simp add: degree_def ends_at_def)
  qed
  with faces cnt[of 3] cnt[of 4] cnt[of 5] prof show ?thesis
    by (simp add: N_TRI_def N_SQ_def N_PENT_def)
qed

lemma sizefinal_Fast_iff:
  "sizefinal Fast s = Some True \<longleftrightarrow>
     (\<forall>F\<in>set (faces s). 3 \<le> length F \<and> length F \<le> 6)
     \<and> facesoflen_of s 3 = 1 \<and> facesoflen_of s 4 = 2 \<and> facesoflen_of s 5 = 5"
proof (cases "tally_final (faces s) (replicate 7 0)")
  case (Inl b)
  moreover have "\<not> (\<forall>F\<in>set (faces s). 3 \<le> length F \<and> length F \<le> 6)"
    using tally_final_total[of "faces s" "replicate 7 0"] Inl by auto
  ultimately show ?thesis using tally_final_Inl[OF Inl] by (auto simp: sizefinal_def)
next
  case (Inr fl)
  from tally_final_Inr[OF Inr] have faces: "\<forall>F\<in>set (faces s). 3 \<le> length F \<and> length F \<le> 6"
    and cnt: "\<And>k. k < 7 \<Longrightarrow> fl ! k = int (facesoflen_of s k)"
    by (auto simp: facesoflen_of_def)
  show ?thesis using faces cnt[of 3] cnt[of 4] cnt[of 5] Inr
    by (simp add: sizefinal_def assert_def N_TRI_def N_SQ_def N_PENT_def)
qed

text \<open>
  C1, as the code has it. In \<^verbatim>\<open>planar.cc\<close>, \<open>sizefinal\<close> returns true only when every
  face has a length in 3..6, exactly 1, 2 and 5 faces have lengths 3, 4 and 5, and every
  vertex 1..numverts has degree 3. In \<^verbatim>\<open>planar-fast.cc\<close> it returns true exactly when
  the faces are so: the degrees are not looked at.
\<close>

theorem sizefinal_true_only:
  "(sizefinal Planar s = Some True \<longrightarrow>
      (\<forall>F\<in>set (faces s). 3 \<le> length F \<and> length F \<le> 6)
      \<and> facesoflen_of s 3 = 1 \<and> facesoflen_of s 4 = 2 \<and> facesoflen_of s 5 = 5
      \<and> (\<forall>x. 1 \<le> x \<and> x \<le> numverts s \<longrightarrow> degree s x = 3))
   \<and> (sizefinal Fast s = Some True \<longleftrightarrow>
      (\<forall>F\<in>set (faces s). 3 \<le> length F \<and> length F \<le> 6)
      \<and> facesoflen_of s 3 = 1 \<and> facesoflen_of s 4 = 2 \<and> facesoflen_of s 5 = 5)"
  using sizefinal_Planar_True[of s] sizefinal_Fast_iff[of s] by blast

theorem sizefinal_true_only_witness:
  "sizefinal Planar accepted_example = Some True \<and> sizefinal Fast accepted_example = Some True
   \<and> degree accepted_example 7 = 3 \<and> facesoflen_of accepted_example 5 = 5"
proof -
  have p: "sizefinal Planar accepted_example = Some True" by code_simp
  have f: "sizefinal Fast accepted_example = Some True" by code_simp
  have n: "1 \<le> (7::int) \<and> 7 \<le> numverts accepted_example" by code_simp
  from sizefinal_true_only[of accepted_example] p f n show ?thesis by blast
qed

text \<open>
  C1 as the specification words it fails for \<^verbatim>\<open>planar-fast.cc\<close>: a state with an empty
  open-boundary sequence and a vertex of degree 4 on which \<open>sizefinal\<close> returns true.
\<close>

theorem sizefinal_fast_degree_counterexample:
  "openfaces uncubic_example = [] \<and> 1 \<le> numverts uncubic_example
   \<and> degree uncubic_example 1 = 4 \<and> sizefinal Fast uncubic_example = Some True"
  by code_simp

section \<open>The driver after a move\<close>

lemma as_size_t_id: "0 \<le> i \<Longrightarrow> i < 2 ^ 31 \<Longrightarrow> as_size_t i = i"
  by (simp add: as_size_t_def)

lemma main_open_pop:
  assumes "main_open v M c = Some c'" "\<not> pop c"
  shows "pop c' \<longleftrightarrow> int (length (graphStack c)) > as_size_t (M - 4)
           \<or> length (openfaces (G c)) = 1 \<or> sizecheck v (G c) = Some False"
    and "\<not> pop c' \<Longrightarrow> chooseFace (G c) = Some (G c') \<and> c' = c\<lparr>G := G c'\<rparr>"
    and "pop c' \<Longrightarrow> c' = c\<lparr>pop := True\<rparr>"
  using assms by (auto simp: main_open_def split: if_splits Option.bind_splits)

text \<open>
  C5, as the code has it, for a bound from 4 on. After a move that leaves the
  open-boundary sequence non-empty, \<^verbatim>\<open>planar-fast.cc\<close> sets \<open>pop\<close> exactly when the stack
  is deeper than the bound minus 4, or one open face is left, or \<open>sizecheck\<close> fails;
  \<^verbatim>\<open>planar.cc\<close> sets it also when its pruning rule on faces 2 and 3 fires. Otherwise
  the next face is chosen and nothing else changes.
\<close>

theorem backtrack_after_move:
  assumes "4 \<le> M" "M < 2 ^ 31"
  shows "(openfaces (G c) \<noteq> [] \<and> \<not> pop c \<and> main_after_fast nauty M c = Some c' \<longrightarrow>
           (pop c' \<longleftrightarrow> int (length (graphStack c)) > M - 4
              \<or> length (openfaces (G c)) = 1 \<or> sizecheck Fast (G c) = Some False)
           \<and> (if pop c' then c' = c\<lparr>pop := True\<rparr>
               else chooseFace (G c) = Some (G c') \<and> c' = c\<lparr>G := G c'\<rparr>))
       \<and> (openfaces (G d) \<noteq> [] \<and> \<not> pop d \<and> main_after_planar nauty M d = Some d' \<longrightarrow>
           (pop d' \<longleftrightarrow> symmetry_prune (G d) = Some True
              \<or> int (length (graphStack d)) > M - 4
              \<or> length (openfaces (G d)) = 1 \<or> sizecheck Planar (G d) = Some False)
           \<and> (if pop d' then d' = d\<lparr>pop := True\<rparr>
               else chooseFace (G d) = Some (G d') \<and> d' = d\<lparr>G := G d'\<rparr>))"
proof -
  have sz: "as_size_t (M - 4) = M - 4" using assms by (simp add: as_size_t_id)
  have fast: "(pop c' \<longleftrightarrow> int (length (graphStack c)) > M - 4
              \<or> length (openfaces (G c)) = 1 \<or> sizecheck Fast (G c) = Some False)
           \<and> (if pop c' then c' = c\<lparr>pop := True\<rparr>
               else chooseFace (G c) = Some (G c') \<and> c' = c\<lparr>G := G c'\<rparr>)"
    if h: "openfaces (G c) \<noteq> []" "\<not> pop c" "main_after_fast nauty M c = Some c'"
  proof -
    from h have o: "main_open Fast M c = Some c'" by (simp add: main_after_fast_def)
    from main_open_pop[OF o h(2)] sz show ?thesis by auto
  qed
  have planar: "(pop d' \<longleftrightarrow> symmetry_prune (G d) = Some True
              \<or> int (length (graphStack d)) > M - 4
              \<or> length (openfaces (G d)) = 1 \<or> sizecheck Planar (G d) = Some False)
           \<and> (if pop d' then d' = d\<lparr>pop := True\<rparr>
               else chooseFace (G d) = Some (G d') \<and> d' = d\<lparr>G := G d'\<rparr>)"
    if h: "openfaces (G d) \<noteq> []" "\<not> pop d" "main_after_planar nauty M d = Some d'"
  proof -
    from h(3) obtain sp where sp: "symmetry_prune (G d) = Some sp"
      by (auto simp: main_after_planar_def split: Option.bind_splits)
    show ?thesis
    proof (cases sp)
      case True
      then show ?thesis using h sp by (auto simp: main_after_planar_def)
    next
      case False
      then have o: "main_open Planar M d = Some d'" using h sp by (simp add: main_after_planar_def)
      from main_open_pop[OF o h(2)] sz False sp show ?thesis by auto
    qed
  qed
  from fast planar show ?thesis by blast
qed

theorem backtrack_after_move_witness:
  "(4::int) \<le> 10 \<and> openfaces (G pruned_example) \<noteq> [] \<and> \<not> pop pruned_example
   \<and> main_after_planar echo_oracle 10 pruned_example = Some (pruned_example\<lparr>pop := True\<rparr>)
   \<and> main_after_fast echo_oracle 10 (main_init [0, 0, 0, 0]) \<noteq> None
   \<and> (symmetry_prune (G pruned_example) = Some True
        \<or> int (length (graphStack pruned_example)) > 10 - 4
        \<or> length (openfaces (G pruned_example)) = 1
        \<or> sizecheck Planar (G pruned_example) = Some False)"
proof -
  have b: "(4::int) \<le> 10" "(10::int) < 2 ^ 31" by simp_all
  have h: "openfaces (G pruned_example) \<noteq> []" "\<not> pop pruned_example" by code_simp+
  have r: "main_after_planar echo_oracle 10 pruned_example = Some (pruned_example\<lparr>pop := True\<rparr>)"
    by code_simp
  have f: "openfaces (G (main_init [0, 0, 0, 0 :: int])) \<noteq> []" "\<not> pop (main_init [0, 0, 0, 0 :: int])"
    "main_after_fast echo_oracle 10 (main_init [0, 0, 0, 0])
       = Some ((main_init [0, 0, 0, 0])\<lparr>G := GraphState_init\<rparr>)"
    by code_simp+
  from backtrack_after_move[OF b, of "main_init [0, 0, 0, 0]" echo_oracle
      "(main_init [0, 0, 0, 0])\<lparr>G := GraphState_init\<rparr>" pruned_example "pruned_example\<lparr>pop := True\<rparr>"]
    h r f
  show ?thesis by simp
qed

text \<open>
  C5 as the specification words it fails for \<^verbatim>\<open>planar.cc\<close>: it backtracks here although
  the stack holds 2 states at bound 10, three faces are open and \<open>sizecheck\<close> passes.
\<close>

theorem backtrack_after_move_counterexample:
  "openfaces (G pruned_example) \<noteq> []
   \<and> main_after_planar echo_oracle 10 pruned_example = Some (pruned_example\<lparr>pop := True\<rparr>)
   \<and> \<not> (int (length (graphStack pruned_example)) > 10 - 4
          \<or> length (openfaces (G pruned_example)) = 1
          \<or> sizecheck Planar (G pruned_example) \<noteq> Some True)"
  by code_simp

section \<open>The whole search\<close>

lemma runs_deterministic: "runs step c r \<Longrightarrow> runs step c r' \<Longrightarrow> r = r'"
proof (induction arbitrary: r' rule: runs.induct)
  case (runs_break c r)
  from runs_break.prems runs_break.hyps show ?case by (cases rule: runs.cases) auto
next
  case (runs_continue c c' r)
  from runs_continue.prems runs_continue.hyps(1) have "runs step c' r'"
    by (cases rule: runs.cases) auto
  then show ?case by (rule runs_continue.IH)
qed

lemma run_turns_runs: "run_turns k step c = Some r \<Longrightarrow> runs step c r"
proof (induction k arbitrary: c)
  case 0
  then show ?case by simp
next
  case (Suc k)
  show ?case
  proof (cases "step c")
    case None
    with Suc.prems show ?thesis by simp
  next
    case (Some f)
    show ?thesis
    proof (cases f)
      case (Break x)
      with Some Suc.prems show ?thesis by (auto intro: runs.runs_break)
    next
      case (Continue c')
      with Some Suc.prems have "run_turns k step c' = Some r" by simp
      from Suc.IH[OF this] Some Continue show ?thesis by (auto intro: runs.runs_continue)
    qed
  qed
qed


section \<open>An error status from the oracle\<close>

text \<open>
  C4, as the code has it. When \<^verbatim>\<open>planar.cc\<close> submits a completed map and nauty reports
  an error status, \<^verbatim>\<open>canongraph\<close> writes a warning to the error stream and the search
  goes on to backtrack as after any completed map; the encoding found in \<^verbatim>\<open>canong\<close> is
  put into the registry all the same, and the tally goes up by one when it was not
  there yet.
\<close>

theorem oracle_error_still_recorded:
  assumes "fill_sg (G c) = Some sg" and "errstatus (nauty sg) \<noteq> 0"
    and "openfaces (G c) = []" and "symmetry_prune (G c) = Some False"
    and "\<not> int (length (faces (G c))) > as_size_t M"
    and "sizefinal Planar (G c) = Some True"
    and "main_after_planar nauty M c = Some c'"
  shows "cerr c' = cerr c @ [''**Oh no, nauty error'']
     \<and> canonslns c' = insert (canong_e (nauty sg)) (canonslns c)
     \<and> nsuccess c' = (if canong_e (nauty sg) \<in> canonslns c then nsuccess c else nsuccess c + 1)
     \<and> pop c' \<and> G c' = G c \<and> graphStack c' = graphStack c"
proof -
  have cg: "canongraph Planar nauty (G c) = Some (canong_e (nauty sg), [''**Oh no, nauty error''])"
    using assms(1,2) by (simp add: canongraph_def)
  show ?thesis
  proof (cases "canong_e (nauty sg) \<in> canonslns c")
    case True
    with assms(3-7) cg have "c' = c\<lparr>pop := True, cerr := cerr c @ [''**Oh no, nauty error'']\<rparr>"
      by (simp add: main_after_planar_def)
    with True show ?thesis by auto
  next
    case False
    with assms(3-7) cg have "c' = c\<lparr>pop := True, cerr := cerr c @ [''**Oh no, nauty error''],
        canonslns := insert (canong_e (nauty sg)) (canonslns c), nsuccess := nsuccess c + 1\<rparr>"
      by (simp add: main_after_planar_def split: Option.bind_splits)
    with False show ?thesis by simp
  qed
qed

theorem oracle_error_still_recorded_witness:
  "fill_sg accepted_example \<noteq> None \<and> openfaces accepted_example = []
   \<and> sizefinal Planar accepted_example = Some True
   \<and> (\<exists>c'. main_after_planar failing_oracle 10 ((main_init 0)\<lparr>G := accepted_example\<rparr>) = Some c'
         \<and> cerr c' = [''**Oh no, nauty error''] \<and> nsuccess c' = 1 \<and> pop c')"
proof -
  obtain sg where sg: "fill_sg accepted_example = Some sg"
    by (cases "fill_sg accepted_example") (simp_all, code_simp)
  have e: "errstatus (failing_oracle sg) \<noteq> 0" by (simp add: failing_oracle_def)
  have o: "openfaces accepted_example = []" by code_simp
  have y: "symmetry_prune accepted_example = Some False" by code_simp
  have l: "\<not> int (length (faces accepted_example)) > as_size_t 10" by code_simp
  have f: "sizefinal Planar accepted_example = Some True" by code_simp
  have m: "main_after_planar failing_oracle 10 ((main_init 0)\<lparr>G := accepted_example\<rparr>)
     = Some ((main_init 0)\<lparr>G := accepted_example, pop := True,
          cerr := [''**Oh no, nauty error''], canonslns := {[0]}, nsuccess := 1\<rparr>)"
    by code_simp
  from oracle_error_still_recorded[of "(main_init 0)\<lparr>G := accepted_example\<rparr>" sg failing_oracle 10, OF _ e _ _ _ _ m]
    sg o y l f m
  show ?thesis by (simp add: main_init_def)
qed

text \<open>
  C4 as the specification words it fails: on an oracle that reports an error, the
  encoding is in the registry afterwards and the tally has gone from 0 to 1.
\<close>

theorem oracle_error_counterexample:
  "errstatus (failing_oracle (the (fill_sg accepted_example))) \<noteq> 0
   \<and> main_after_planar failing_oracle 10 ((main_init 0)\<lparr>G := accepted_example\<rparr>)
     = Some ((main_init 0)\<lparr>G := accepted_example, pop := True,
          cerr := [''**Oh no, nauty error''], canonslns := {[0]}, nsuccess := 1\<rparr>)"
  by code_simp

section \<open>Removing a cyclic run of entries\<close>

lemma mod_add_cases:
  "a < n \<Longrightarrow> k \<le> n \<Longrightarrow> (a + k) mod n = (if a + k < n then a + k else a + k - n)"
  for a k n :: nat
  by (simp add: mod_if)

lemma nths_cong_len:
  "(\<And>i. i < length xs \<Longrightarrow> i \<in> A \<longleftrightarrow> i \<in> B) \<Longrightarrow> nths xs A = nths xs B"
  unfolding nths_def
  by (intro arg_cong[where f="map fst"] filter_cong refl) (auto simp: set_zip)

lemma take_drop_nths:
  assumes "a \<le> b" "b \<le> length xs"
  shows "take a xs @ drop b xs = nths xs {i. i < a \<or> b \<le> i}"
proof -
  let ?I = "{i. i < a \<or> b \<le> i}"
  have "nths xs ?I = nths (take a xs @ drop a xs) ?I" by simp
  also have "\<dots> = nths (take a xs) ?I @ nths (drop a xs) {j. j + length (take a xs) \<in> ?I}"
    by (rule nths_append)
  also have "nths (take a xs) ?I = take a xs"
    by (rule nths_all) simp
  also have "nths (drop a xs) {j. j + length (take a xs) \<in> ?I} = nths (drop a xs) {j. b - a \<le> j}"
    using assms by (intro nths_cong_len) auto
  also have "\<dots> = drop (b - a) (drop a xs)" by (simp add: drop_eq_nths)
  also have "\<dots> = drop b xs" using assms by simp
  finally show ?thesis by simp
qed

lemma drop_take_nths:
  assumes "a \<le> length xs"
  shows "drop k (take a xs) = nths xs {i. k \<le> i \<and> i < a}"
proof -
  let ?I = "{i. k \<le> i \<and> i < a}"
  have "nths xs ?I = nths (take a xs @ drop a xs) ?I" by simp
  also have "\<dots> = nths (take a xs) ?I @ nths (drop a xs) {j. j + length (take a xs) \<in> ?I}"
    by (rule nths_append)
  also have "nths (drop a xs) {j. j + length (take a xs) \<in> ?I} = nths (drop a xs) {}"
    using assms by (intro nths_cong_len) auto
  also have "nths (take a xs) ?I = nths (take a xs) {i. k \<le> i}"
    by (intro nths_cong_len) auto
  also have "\<dots> = drop k (take a xs)" by (simp add: drop_eq_nths)
  finally show ?thesis by simp
qed

lemma cyc_remove_nths:
  assumes "a < length xs" "k \<le> length xs"
  shows "cyc_remove xs a k = nths xs (keep (length xs) a k)"
proof (cases "a + k \<le> length xs")
  case True
  have "i \<in> {i. i < a \<or> a + k \<le> i} \<longleftrightarrow> i \<in> keep (length xs) a k" if "i < length xs" for i
  proof
    assume "i \<in> {i. i < a \<or> a + k \<le> i}"
    then show "i \<in> keep (length xs) a k" using True by (auto simp: keep_def)
  next
    assume i: "i \<in> keep (length xs) a k"
    show "i \<in> {i. i < a \<or> a + k \<le> i}"
    proof (rule ccontr)
      assume "i \<notin> {i. i < a \<or> a + k \<le> i}"
      then have "a \<le> i" "i < a + k" by auto
      then have "i - a < k" "(a + (i - a)) mod length xs = i" using that by auto
      with i show False by (auto simp: keep_def)
    qed
  qed
  then have "nths xs {i. i < a \<or> a + k \<le> i} = nths xs (keep (length xs) a k)"
    by (rule nths_cong_len)
  with True assms show ?thesis by (simp add: cyc_remove_def take_drop_nths)
next
  case False
  let ?n = "length xs"
  have "i \<in> {i. a + k - ?n \<le> i \<and> i < a} \<longleftrightarrow> i \<in> keep ?n a k" if "i < ?n" for i
  proof
    assume h: "i \<in> {i. a + k - ?n \<le> i \<and> i < a}"
    have "i \<noteq> (a + j) mod ?n" if "j < k" for j
      using h assms that False by (auto simp: mod_if)
    then show "i \<in> keep ?n a k" by (simp add: keep_def)
  next
    assume i: "i \<in> keep ?n a k"
    show "i \<in> {i. a + k - ?n \<le> i \<and> i < a}"
    proof (rule ccontr)
      assume "i \<notin> {i. a + k - ?n \<le> i \<and> i < a}"
      then consider "i < a + k - ?n" | "a \<le> i" by fastforce
      then show False
      proof cases
        case 1
        then have "i + ?n - a < k" "(a + (i + ?n - a)) mod ?n = i" using assms that by auto
        with i show False by (auto simp: keep_def)
      next
        case 2
        then have "i - a < k" "(a + (i - a)) mod ?n = i" using assms that False by auto
        with i show False by (auto simp: keep_def)
      qed
    qed
  qed
  then have "nths xs {i. a + k - ?n \<le> i \<and> i < a} = nths xs (keep ?n a k)"
    by (rule nths_cong_len)
  with False assms show ?thesis by (simp add: cyc_remove_def drop_take_nths)
qed

lemma distinct_cyc_remove:
  "distinct xs \<Longrightarrow> a < length xs \<Longrightarrow> k \<le> length xs \<Longrightarrow> distinct (cyc_remove xs a k)"
  by (simp add: cyc_remove_nths)

lemma length_cyc_remove:
  "a < length xs \<Longrightarrow> k \<le> length xs \<Longrightarrow> length (cyc_remove xs a k) = length xs - k"
  by (auto simp: cyc_remove_def)

lemma set_cyc_remove:
  assumes "distinct xs" "a < length xs" "k \<le> length xs"
  shows "set (cyc_remove xs a k) = set xs - (\<lambda>j. xs ! ((a + j) mod length xs)) ` {..<k}"
proof -
  let ?n = "length xs"
  have "set (cyc_remove xs a k) = {xs ! i | i. i < ?n \<and> i \<in> keep ?n a k}"
    using assms by (simp add: cyc_remove_nths set_nths)
  also have "\<dots> = set xs - (\<lambda>j. xs ! ((a + j) mod ?n)) ` {..<k}"
  proof (intro set_eqI iffI)
    fix x assume "x \<in> {xs ! i | i. i < ?n \<and> i \<in> keep ?n a k}"
    then obtain i where i: "x = xs ! i" "i < ?n" "i \<in> keep ?n a k" by auto
    have "x \<noteq> xs ! ((a + j) mod ?n)" if "j < k" for j
    proof -
      have "0 < ?n" using assms(2) by (cases xs) auto
      then have "(a + j) mod ?n < ?n" by simp
      moreover have "i \<noteq> (a + j) mod ?n" using i(3) that by (simp add: keep_def)
      ultimately show ?thesis using i(1,2) assms(1) by (simp add: nth_eq_iff_index_eq)
    qed
    with i show "x \<in> set xs - (\<lambda>j. xs ! ((a + j) mod ?n)) ` {..<k}" by auto
  next
    fix x assume x: "x \<in> set xs - (\<lambda>j. xs ! ((a + j) mod ?n)) ` {..<k}"
    then obtain i where i: "i < ?n" "x = xs ! i" by (auto simp: in_set_conv_nth)
    have "i \<in> keep ?n a k" using x i by (auto simp: keep_def)
    with i show "x \<in> {xs ! i | i. i < ?n \<and> i \<in> keep ?n a k}" by auto
  qed
  finally show ?thesis .
qed

section \<open>The calls of erase in addEdges\<close>

lemma cyc_nat: "0 < n \<Longrightarrow> cyc oF (int k) n = Some ((oF + k) mod n)"
  by (simp add: cyc_def nat_mod_distrib flip: of_nat_add zmod_int)

lemma cyc_prev:
  assumes "2 \<le> n"
  shows "cyc oF (int n - 1) n = Some ((oF + (n - 1)) mod n)"
    and "cyc oF (int n - 2) n = Some ((oF + (n - 2)) mod n)"
    and "cyc oF (2 * int n - 3) n = Some ((oF + (2 * n - 3)) mod n)"
proof -
  have n: "0 < n" using assms by simp
  have e: "int n - 1 = int (n - 1)" "int n - 2 = int (n - 2)" "2 * int n - 3 = int (2 * n - 3)"
    using assms by auto
  show "cyc oF (int n - 1) n = Some ((oF + (n - 1)) mod n)"
    unfolding e by (rule cyc_nat[OF n])
  show "cyc oF (int n - 2) n = Some ((oF + (n - 2)) mod n)"
    unfolding e by (rule cyc_nat[OF n])
  show "cyc oF (2 * int n - 3) n = Some ((oF + (2 * n - 3)) mod n)"
    unfolding e by (rule cyc_nat[OF n])
qed

lemma ppp_mod: "3 \<le> n \<Longrightarrow> (oF + (2 * n - 3)) mod n = (oF + (n - 3)) mod n" for n :: nat
proof -
  assume "3 \<le> n"
  then have "oF + (2 * n - 3) = (oF + (n - 3)) + n" by simp
  then show ?thesis by (metis mod_add_self2)
qed

lemma mod_prev:
  "a < n \<Longrightarrow> j \<le> n \<Longrightarrow> (a + (n - j)) mod n = (if j \<le> a then a - j else a + n - j)"
  for a j n :: nat
proof (cases "j \<le> a")
  case True
  assume "a < n" "j \<le> n"
  with True have "a + (n - j) = (a - j) + n" "a - j < n" by simp_all
  then have "(a + (n - j)) mod n = a - j" by (metis mod_add_self2 mod_less)
  with True show ?thesis by simp
next
  case False
  assume "a < n" "j \<le> n"
  with False have "a + (n - j) < n" "a + (n - j) = a + n - j" by simp_all
  with False show ?thesis by simp
qed

lemma erase_range_Some:
  "erase_range a b s = Some s' \<longleftrightarrow>
     a \<le> b \<and> b \<le> length (openfaces s)
     \<and> s' = s\<lparr>openfaces := take a (openfaces s) @ drop b (openfaces s)\<rparr>"
  by (auto simp: erase_range_def)

lemma erase_at_Some:
  "erase_at a s = Some s' \<longleftrightarrow>
     a < length (openfaces s)
     \<and> s' = s\<lparr>openfaces := take a (openfaces s) @ drop (Suc a) (openfaces s)\<rparr>"
  by (auto simp: erase_at_def)

lemma erase_at_range: "erase_at a = erase_range a (Suc a)"
  by (rule ext) (auto simp: erase_at_def erase_range_def)

lemma erase_nowrap:
  assumes "erase_range a b s = Some s'" "b = a + k"
  shows "s' = s\<lparr>openfaces := cyc_remove (openfaces s) a k\<rparr>"
  using assms by (auto simp: erase_range_Some cyc_remove_def)

lemma erase_wrap:
  assumes "do { t \<leftarrow> erase_range a b s; erase_range c d t } = Some s'"
    and "b = length (openfaces s)" "c = 0" "length (openfaces s) < a + k"
    and "d = a + k - length (openfaces s)"
  shows "s' = s\<lparr>openfaces := cyc_remove (openfaces s) a k\<rparr>"
proof -
  from assms(1) obtain t where t: "erase_range a b s = Some t" and s': "erase_range c d t = Some s'"
    by (auto simp: bind_eq_Some_conv)
  from t assms(2) have t': "t = s\<lparr>openfaces := take a (openfaces s)\<rparr>"
    by (simp add: erase_range_Some)
  from s' assms(3) t' have "s' = s\<lparr>openfaces := drop d (take a (openfaces s))\<rparr>"
    by (simp add: erase_range_Some)
  with assms(4,5) show ?thesis by (simp add: cyc_remove_def)
qed

lemma erase_seq_1:
  assumes "oF < length (openfaces s)" "2 \<le> length (openfaces s)"
    and "noF = (oF + 1) mod length (openfaces s)"
    and "(if noF > oF then erase_range oF (oF + 2) s
          else do { s \<leftarrow> erase_at oF s; erase_at noF s }) = Some s'"
  shows "s' = s\<lparr>openfaces := cyc_remove (openfaces s) oF 2\<rparr>"
proof -
  let ?n = "length (openfaces s)"
  have pos: "noF = (if oF + 1 < ?n then oF + 1 else oF + 1 - ?n)"
    using assms(1-3) mod_add_cases[of oF ?n 1] by simp
  consider (a) "oF + 1 < ?n" | (b) "?n = oF + 1"
    using assms(1) by linarith
  then show ?thesis
  proof cases
    case a
    with pos have "noF > oF" by simp
    with assms(4) have "erase_range oF (oF + 2) s = Some s'" by simp
    then show ?thesis by (rule erase_nowrap) simp
  next
    case b
    with pos have v: "noF = 0" by simp
    then have "\<not> noF > oF" by simp
    with assms(4) have "do { t \<leftarrow> erase_range oF (Suc oF) s; erase_range noF (Suc noF) t } = Some s'"
      by (simp add: erase_at_range)
    then show ?thesis by (rule erase_wrap) (use b v in simp_all)
  qed
qed

lemma erase_seq_2:
  assumes "oF < length (openfaces s)" "erase_at oF s = Some s'"
  shows "s' = s\<lparr>openfaces := cyc_remove (openfaces s) oF (Suc 0)\<rparr>"
  using assms
  by (auto simp: erase_at_Some cyc_remove_def)

lemma erase_seq_36:
  assumes "oF < length (openfaces s)" "4 \<le> length (openfaces s)"
    and "noF = (oF + 1) mod length (openfaces s)"
    and "nnoF = (oF + 2) mod length (openfaces s)"
    and "nnnoF = (oF + 3) mod length (openfaces s)"
    and "(if nnnoF > oF then erase_range oF (oF + 4) s
            else if nnoF > oF then do { s \<leftarrow> erase_range oF (oF + 3) s; erase_at nnnoF s }
            else if noF > oF then do {
              s \<leftarrow> erase_range oF (oF + 2) s;
              erase_range nnoF (nnoF + 2) s }
            else do { s \<leftarrow> erase_at oF s; erase_range noF (noF + 3) s }) = Some s'"
  shows "s' = s\<lparr>openfaces := cyc_remove (openfaces s) oF 4\<rparr>"
proof -
  let ?n = "length (openfaces s)"
  have pos: "noF = (if oF + 1 < ?n then oF + 1 else oF + 1 - ?n)"
    "nnoF = (if oF + 2 < ?n then oF + 2 else oF + 2 - ?n)"
    "nnnoF = (if oF + 3 < ?n then oF + 3 else oF + 3 - ?n)"
    using assms(1-5) mod_add_cases[of oF ?n 1] mod_add_cases[of oF ?n 2]
      mod_add_cases[of oF ?n 3] by simp_all
  consider (a) "oF + 3 < ?n" | (b) "?n = oF + 3" | (c) "?n = oF + 2" | (d) "?n = oF + 1"
    using assms(1) by linarith
  then show ?thesis
  proof cases
    case a
    with pos have "nnnoF > oF" by simp
    with assms(6) have "erase_range oF (oF + 4) s = Some s'" by simp
    then show ?thesis by (rule erase_nowrap) simp
  next
    case b
    with pos have v: "noF = oF + 1" "nnoF = oF + 2" "nnnoF = 0" by simp_all
    then have "\<not> nnnoF > oF" "nnoF > oF" by simp_all
    with assms(6) have "do { t \<leftarrow> erase_range oF (oF + 3) s; erase_range nnnoF (Suc nnnoF) t } = Some s'"
      by (simp add: erase_at_range)
    then show ?thesis by (rule erase_wrap) (use b v in simp_all)
  next
    case c
    with pos have v: "noF = oF + 1" "nnoF = 0" "nnnoF = 1" by simp_all
    then have "\<not> nnnoF > oF" "\<not> nnoF > oF" "noF > oF" using c assms(2) by simp_all
    with assms(6) have "do { t \<leftarrow> erase_range oF (oF + 2) s; erase_range nnoF (nnoF + 2) t } = Some s'"
      by simp
    then show ?thesis by (rule erase_wrap) (use c v in simp_all)
  next
    case d
    with pos have v: "noF = 0" "nnoF = 1" "nnnoF = 2" by simp_all
    then have "\<not> nnnoF > oF" "\<not> nnoF > oF" "\<not> noF > oF" using d assms(2) by simp_all
    with assms(6) have "do { t \<leftarrow> erase_range oF (Suc oF) s; erase_range noF (noF + 3) t } = Some s'"
      by (simp add: erase_at_range)
    then show ?thesis by (rule erase_wrap) (use d v in simp_all)
  qed
qed

lemma erase_seq_8:
  assumes "oF < length (openfaces s)" "3 \<le> length (openfaces s)"
    and "noF = (oF + 1) mod length (openfaces s)"
    and "nnoF = (oF + 2) mod length (openfaces s)"
    and "(if nnoF > oF then erase_range oF (oF + 3) s
            else if noF > oF then do { s \<leftarrow> erase_range oF (oF + 2) s; erase_at nnoF s }
            else do { s \<leftarrow> erase_at oF s; erase_range noF (noF + 2) s }) = Some s'"
  shows "s' = s\<lparr>openfaces := cyc_remove (openfaces s) oF 3\<rparr>"
proof -
  let ?n = "length (openfaces s)"
  have pos: "noF = (if oF + 1 < ?n then oF + 1 else oF + 1 - ?n)"
    "nnoF = (if oF + 2 < ?n then oF + 2 else oF + 2 - ?n)"
    using assms(1-4) mod_add_cases[of oF ?n 1] mod_add_cases[of oF ?n 2] by simp_all
  consider (a) "oF + 2 < ?n" | (c) "?n = oF + 2" | (d) "?n = oF + 1"
    using assms(1) by linarith
  then show ?thesis
  proof cases
    case a
    with pos have "nnoF > oF" by simp
    with assms(5) have "erase_range oF (oF + 3) s = Some s'" by simp
    then show ?thesis by (rule erase_nowrap) simp
  next
    case c
    with pos have v: "noF = oF + 1" "nnoF = 0" by simp_all
    then have "\<not> nnoF > oF" "noF > oF" by simp_all
    with assms(5) have "do { t \<leftarrow> erase_range oF (oF + 2) s; erase_range nnoF (Suc nnoF) t } = Some s'"
      by (simp add: erase_at_range)
    then show ?thesis by (rule erase_wrap) (use c v in simp_all)
  next
    case d
    with pos have v: "noF = 0" "nnoF = 1" by simp_all
    then have "\<not> nnoF > oF" "\<not> noF > oF" using d assms(2) by simp_all
    with assms(5) have "do { t \<leftarrow> erase_range oF (Suc oF) s; erase_range noF (noF + 2) t } = Some s'"
      by (simp add: erase_at_range)
    then show ?thesis by (rule erase_wrap) (use d v in simp_all)
  qed
qed

lemma erase_seq_47:
  assumes "oF < length (openfaces s)" "4 \<le> length (openfaces s)"
    and "ppoF = (oF + (length (openfaces s) - 2)) mod length (openfaces s)"
    and "poF = (oF + (length (openfaces s) - 1)) mod length (openfaces s)"
    and "noF = (oF + 1) mod length (openfaces s)"
    and "(if ppoF < noF then erase_range ppoF (noF + 1) s
            else if poF < noF then do { s \<leftarrow> erase_at ppoF s; erase_range poF (noF + 1) s }
            else if oF < noF then do {
              s \<leftarrow> erase_range ppoF (poF + 1) s;
              erase_range oF (noF + 1) s }
            else do { s \<leftarrow> erase_range ppoF (oF + 1) s; erase_at noF s }) = Some s'"
  shows "s' = s\<lparr>openfaces := cyc_remove (openfaces s) ppoF 4\<rparr>"
proof -
  let ?n = "length (openfaces s)"
  have pos: "noF = (if oF + 1 < ?n then oF + 1 else oF + 1 - ?n)"
    "poF = (if 1 \<le> oF then oF - 1 else oF + ?n - 1)"
    "ppoF = (if 2 \<le> oF then oF - 2 else oF + ?n - 2)"
    using assms(1-5) mod_add_cases[of oF ?n 1] mod_prev[of oF ?n 1] mod_prev[of oF ?n 2]
    by simp_all
  consider (a) "2 \<le> oF" "oF + 1 < ?n" | (b) "oF = 1"
    | (c) "oF = 0" | (d) "2 \<le> oF" "?n = oF + 1"
    using assms(1) by linarith
  then show ?thesis
  proof cases
    case a
    with pos have v: "ppoF = oF - 2" "poF = oF - 1" "noF = oF + 1" by simp_all
    with a have "ppoF < noF" by simp
    with assms(6) have "erase_range ppoF (noF + 1) s = Some s'" by simp
    then show ?thesis by (rule erase_nowrap) (use v a in simp)
  next
    case b
    with pos assms(2) have v: "ppoF = ?n - 1" "poF = 0" "noF = 2" by simp_all
    with assms(2) have "\<not> ppoF < noF" "poF < noF" by simp_all
    with assms(6) have "do { t \<leftarrow> erase_range ppoF (Suc ppoF) s; erase_range poF (noF + 1) t } = Some s'"
      by (simp add: erase_at_range)
    then show ?thesis by (rule erase_wrap) (use v assms(2) in simp_all)
  next
    case c
    with pos assms(2) have v: "ppoF = ?n - 2" "poF = ?n - 1" "noF = 1" by simp_all
    with assms(2) c have "\<not> ppoF < noF" "\<not> poF < noF" "oF < noF" by simp_all
    with assms(6) have "do { t \<leftarrow> erase_range ppoF (poF + 1) s; erase_range oF (noF + 1) t } = Some s'"
      by simp
    then show ?thesis by (rule erase_wrap) (use v c assms(2) in simp_all)
  next
    case d
    with pos have v: "ppoF = oF - 2" "poF = oF - 1" "noF = 0" by simp_all
    with d have "\<not> ppoF < noF" "\<not> poF < noF" "\<not> oF < noF" by simp_all
    with assms(6) have "do { t \<leftarrow> erase_range ppoF (oF + 1) s; erase_range noF (Suc noF) t } = Some s'"
      by (simp add: erase_at_range)
    then show ?thesis by (rule erase_wrap) (use v d in simp_all)
  qed
qed

lemma erase_seq_9:
  assumes "oF < length (openfaces s)" "3 \<le> length (openfaces s)"
    and "ppoF = (oF + (length (openfaces s) - 2)) mod length (openfaces s)"
    and "poF = (oF + (length (openfaces s) - 1)) mod length (openfaces s)"
    and "(if ppoF < oF then erase_range ppoF (oF + 1) s
            else if poF < oF then do { s \<leftarrow> erase_at ppoF s; erase_range poF (oF + 1) s }
            else do { s \<leftarrow> erase_range ppoF (poF + 1) s; erase_at oF s }) = Some s'"
  shows "s' = s\<lparr>openfaces := cyc_remove (openfaces s) ppoF 3\<rparr>"
proof -
  let ?n = "length (openfaces s)"
  have pos: "poF = (if 1 \<le> oF then oF - 1 else oF + ?n - 1)"
    "ppoF = (if 2 \<le> oF then oF - 2 else oF + ?n - 2)"
    using assms(1-4) mod_prev[of oF ?n 1] mod_prev[of oF ?n 2] by simp_all
  consider (a) "2 \<le> oF" | (b) "oF = 1" | (c) "oF = 0"
    by linarith
  then show ?thesis
  proof cases
    case a
    with pos have v: "ppoF = oF - 2" "poF = oF - 1" by simp_all
    with a have "ppoF < oF" by simp
    with assms(5) have "erase_range ppoF (oF + 1) s = Some s'" by simp
    then show ?thesis by (rule erase_nowrap) (use v a in simp)
  next
    case b
    with pos assms(2) have v: "ppoF = ?n - 1" "poF = 0" by simp_all
    with assms(2) b have "\<not> ppoF < oF" "poF < oF" by simp_all
    with assms(5) have "do { t \<leftarrow> erase_range ppoF (Suc ppoF) s; erase_range poF (oF + 1) t } = Some s'"
      by (simp add: erase_at_range)
    then show ?thesis by (rule erase_wrap) (use v b assms(2) in simp_all)
  next
    case c
    with pos assms(2) have v: "ppoF = ?n - 2" "poF = ?n - 1" by simp_all
    with assms(2) c have "\<not> ppoF < oF" "\<not> poF < oF" by simp_all
    with assms(5) have "do { t \<leftarrow> erase_range ppoF (poF + 1) s; erase_range oF (Suc oF) t } = Some s'"
      by (simp add: erase_at_range)
    then show ?thesis by (rule erase_wrap) (use v c assms(2) in simp_all)
  qed
qed

section \<open>Valid references\<close>

lemma place_mem: "openfaces s \<noteq> [] \<Longrightarrow> place s oF k \<in> set (openfaces s)"
  by (simp add: place_def)

lemma place_lt: "refs_ok s \<Longrightarrow> openfaces s \<noteq> [] \<Longrightarrow> place s oF k < length (faces s)"
  using place_mem[of s oF k] by (auto simp: refs_ok_def)

lemma mod_add_inj:
  "a < n \<Longrightarrow> k < n \<Longrightarrow> k' < n \<Longrightarrow> (a + k) mod n = (a + k') mod n \<longleftrightarrow> k = k'"
  for a k k' n :: nat
  using mod_add_cases[of a n k] mod_add_cases[of a n k'] by (auto split: if_splits)

lemma place_inj:
  assumes "refs_ok s" "oF < length (openfaces s)" "k < length (openfaces s)" "k' < length (openfaces s)"
  shows "place s oF k = place s oF k' \<longleftrightarrow> k = k'"
proof -
  have "openfaces s \<noteq> []" using assms(2) by auto
  then have "(oF + k) mod length (openfaces s) < length (openfaces s)"
    "(oF + k') mod length (openfaces s) < length (openfaces s)" by simp_all
  then have "place s oF k = place s oF k' \<longleftrightarrow>
     (oF + k) mod length (openfaces s) = (oF + k') mod length (openfaces s)"
    using assms(1) by (simp add: place_def refs_ok_def nth_eq_iff_index_eq)
  then show ?thesis using assms(2-4) by (simp add: mod_add_inj)
qed

lemma place_0: "oF < length (openfaces s) \<Longrightarrow> place s oF 0 = openfaces s ! oF"
  by (simp add: place_def)

text \<open>The faces that a cyclic removal takes out of the open-boundary sequence.\<close>

lemma set_cyc_remove_place:
  assumes "refs_ok s" "oF < length (openfaces s)" "k \<le> length (openfaces s)"
  shows "set (cyc_remove (openfaces s) ((oF + a) mod length (openfaces s)) k)
       = set (openfaces s) - (\<lambda>j. place s oF (a + j)) ` {..<k}"
proof -
  let ?n = "length (openfaces s)"
  have n: "openfaces s \<noteq> []" using assms(2) by auto
  then have lt: "(oF + a) mod ?n < ?n" by simp
  have e: "((oF + a) mod ?n + j) mod ?n = (oF + (a + j)) mod ?n" for j
    by (simp add: mod_add_left_eq add.assoc)
  have d: "distinct (openfaces s)" using assms(1) by (simp add: refs_ok_def)
  show ?thesis unfolding set_cyc_remove[OF d lt assms(3)] place_def e ..
qed

lemma place_mod: "place s oF (k + length (openfaces s)) = place s oF k"
  by (simp add: place_def flip: add.assoc)

lemma image_lessThan_1: "f ` {..<Suc 0} = {f 0}"
  by (auto simp: lessThan_Suc)

lemma image_lessThan_2: "f ` {..<(2::nat)} = {f 0, f 1}"
  by (auto simp: lessThan_Suc numeral_2_eq_2)

lemma image_lessThan_3: "f ` {..<(3::nat)} = {f 0, f 1, f 2}"
  by (auto simp: lessThan_Suc numeral_3_eq_3 numeral_2_eq_2)

lemma image_lessThan_4: "f ` {..<(4::nat)} = {f 0, f 1, f 2, f 3}"
proof -
  have "{..<(4::nat)} = {0, 1, 2, 3}" by auto
  then show ?thesis by simp
qed

subsection \<open>The closing loop\<close>

lemma erase_loop_inv:
  assumes "erase_loop efs s = Some s'" "sorted (rev efs)" "distinct efs"
    and "refs_ok s" "set efs \<inter> set (openfaces s) = {}"
  shows "refs_ok s' \<and> length (openfaces s') = length (openfaces s)
     \<and> length (faces s') + length efs = length (faces s)
     \<and> edges s' = edges s \<and> numverts s' = numverts s
     \<and> nsq s' = nsq s \<and> npent s' = npent s \<and> nhex s' = nhex s
     \<and> medgadd s' = medgadd s \<and> chosenFace s' = chosenFace s
     \<and> (\<forall>i'<length (faces s'). i' \<notin> set (openfaces s') \<longrightarrow>
          (\<exists>i<length (faces s). i \<notin> set (openfaces s) \<and> i \<notin> set efs
              \<and> faces s' ! i' = faces s ! i \<and> (0 \<notin> set efs \<longrightarrow> (i' = 0 \<longleftrightarrow> i = 0))))"
  using assms
proof (induction efs arbitrary: s)
  case Nil
  then show ?case by auto
next
  case (Cons ef efs)
  define dec where "dec = (\<lambda>opf. if opf > ef then opf - 1 else opf)"
  define t where "t = s\<lparr>openfaces := map dec (openfaces s),
              faces := take ef (faces s) @ drop (Suc ef) (faces s)\<rparr>"
  from Cons.prems(1) have ef: "ef < length (faces s)" and rest: "erase_loop efs t = Some s'"
    by (auto simp: Let_def t_def dec_def split: if_splits)
  from Cons.prems(2,3) have below: "\<forall>r\<in>set efs. r < ef"
    by (auto simp: sorted_append) (metis le_neq_implies_less)
  from Cons.prems(5) have efn: "ef \<notin> set (openfaces s)" by auto
  from Cons.prems(4) have d: "distinct (openfaces s)" and r: "\<forall>f\<in>set (openfaces s). f < length (faces s)"
    by (auto simp: refs_ok_def)
  have inj: "inj_on dec (set (openfaces s))"
  proof (rule inj_onI)
    fix x y assume x: "x \<in> set (openfaces s)" and y: "y \<in> set (openfaces s)"
      and eq: "dec x = dec y"
    from x y efn have "x \<noteq> ef" "y \<noteq> ef" by auto
    with eq show "x = y" unfolding dec_def by (cases "ef < x"; cases "ef < y") auto
  qed
  have lf: "length (faces t) = length (faces s) - 1" using ef by (simp add: t_def)
  have rng: "dec f < length (faces t)" if "f \<in> set (openfaces s)" for f
  proof -
    from that r efn have "f < length (faces s)" "f \<noteq> ef" by auto
    with ef lf show ?thesis unfolding dec_def by auto
  qed
  have ot: "openfaces t = map dec (openfaces s)" by (simp add: t_def)
  have t1: "refs_ok t"
    unfolding refs_ok_def ot using d inj rng by (auto simp: distinct_map)
  have t2: "set efs \<inter> set (openfaces t) = {}"
  proof -
    have "r \<notin> set (openfaces t)" if "r \<in> set efs" for r
    proof
      assume "r \<in> set (openfaces t)"
      then obtain x where x: "x \<in> set (openfaces s)" "r = dec x" unfolding ot by auto
      from that below have "r < ef" by simp
      with x efn have "r = x" unfolding dec_def by (cases "ef < x") auto
      with x(1) that Cons.prems(5) show False by auto
    qed
    then show ?thesis by auto
  qed
  have s1: "sorted (rev efs)" "distinct efs" using Cons.prems(2,3) by (auto simp: sorted_append)
  note ih = Cons.IH[OF rest s1 t1 t2]
  have other: "edges t = edges s" "numverts t = numverts s" "nsq t = nsq s" "npent t = npent s"
    "nhex t = nhex s" "medgadd t = medgadd s" "chosenFace t = chosenFace s"
    "length (openfaces t) = length (openfaces s)"
    by (simp_all add: t_def)
  have corr: "\<exists>i<length (faces s). i \<notin> set (openfaces s) \<and> i \<notin> set (ef # efs)
              \<and> faces s' ! i' = faces s ! i \<and> (0 \<notin> set (ef # efs) \<longrightarrow> (i' = 0 \<longleftrightarrow> i = 0))"
    if i': "i' < length (faces s')" "i' \<notin> set (openfaces s')" for i'
  proof -
    from ih i' obtain j where j: "j < length (faces t)" "j \<notin> set (openfaces t)" "j \<notin> set efs"
      "faces s' ! i' = faces t ! j" "0 \<notin> set efs \<longrightarrow> (i' = 0 \<longleftrightarrow> j = 0)"
      by blast
    define i where "i = (if j < ef then j else Suc j)"
    have a: "i < length (faces s)" using j(1) ef lf by (auto simp: i_def)
    have b: "i \<noteq> ef" by (auto simp: i_def)
    have dj: "dec i = j" by (auto simp: dec_def i_def)
    have c: "i \<notin> set (openfaces s)"
    proof
      assume "i \<in> set (openfaces s)"
      then have "dec i \<in> set (openfaces t)" unfolding ot by simp
      with dj j(2) show False by simp
    qed
    have e: "i \<notin> set efs" using j(3) below by (auto simp: i_def)
    have f: "faces t ! j = faces s ! i" using j(1) ef lf by (auto simp: t_def i_def nth_append min_def)
    have g: "0 \<notin> set (ef # efs) \<longrightarrow> (i' = 0 \<longleftrightarrow> i = 0)" using j(5) by (auto simp: i_def)
    from a b c e f g j(4) show ?thesis by (intro exI[of _ i]) auto
  qed
  have "length (faces s') + length (ef # efs) = length (faces s)"
    using ih lf ef by simp
  with ih other corr show ?case by simp
qed

lemma erase_loop_sorted:
  assumes "erase_loop (rev (sort te)) s = Some s'" "distinct te"
    and "refs_ok s" "set te \<inter> set (openfaces s) = {}"
  shows "refs_ok s' \<and> length (openfaces s') = length (openfaces s)
     \<and> length (faces s') + length te = length (faces s)
     \<and> edges s' = edges s \<and> numverts s' = numverts s
     \<and> nsq s' = nsq s \<and> npent s' = npent s \<and> nhex s' = nhex s
     \<and> medgadd s' = medgadd s \<and> chosenFace s' = chosenFace s
     \<and> (\<forall>i'<length (faces s'). i' \<notin> set (openfaces s') \<longrightarrow>
          (\<exists>i<length (faces s). i \<notin> set (openfaces s) \<and> i \<notin> set te
              \<and> faces s' ! i' = faces s ! i \<and> (0 \<notin> set te \<longrightarrow> (i' = 0 \<longleftrightarrow> i = 0))))"
  using erase_loop_inv[OF assms(1)] assms(2-4) by simp

section \<open>What each move does\<close>

lemma bindE:
  assumes "Option.bind m f = Some y"
  obtains x where "m = Some x" "f x = Some y"
  using assms by (auto simp: bind_eq_Some_conv)

lemma push_back_Some:
  "push_back f x s = Some s' \<longleftrightarrow>
     f < length (faces s) \<and> s' = s\<lparr>faces := (faces s)[f := faces s ! f @ [x]]\<rparr>"
  by (auto simp: push_back_def)

lemma push_front_Some:
  "push_front f x s = Some s' \<longleftrightarrow>
     f < length (faces s) \<and> s' = s\<lparr>faces := (faces s)[f := x # faces s ! f]\<rparr>"
  by (auto simp: push_front_def)

lemma append_face_Some:
  "append_face f g s = Some s' \<longleftrightarrow>
     f < length (faces s) \<and> g < length (faces s) \<and> f \<noteq> g
     \<and> s' = s\<lparr>faces := (faces s)[f := faces s ! f @ faces s ! g]\<rparr>"
  by (auto simp: append_face_def)

lemma set_open_Some:
  "set_open a x s = Some s' \<longleftrightarrow>
     a < length (openfaces s) \<and> s' = s\<lparr>openfaces := (openfaces s)[a := x]\<rparr>"
  by (auto simp: set_open_def)

lemma insert_open_Some:
  "insert_open a x s = Some s' \<longleftrightarrow>
     a \<le> length (openfaces s)
     \<and> s' = s\<lparr>openfaces := take a (openfaces s) @ x # drop a (openfaces s)\<rparr>"
  by (auto simp: insert_open_def)

lemma countFace_fields:
  "faces (fst (countFace v F s)) = faces s" "openfaces (fst (countFace v F s)) = openfaces s"
  "edges (fst (countFace v F s)) = edges s" "numverts (fst (countFace v F s)) = numverts s"
  "medgadd (fst (countFace v F s)) = medgadd s" "chosenFace (fst (countFace v F s)) = chosenFace s"
  by (simp_all add: countFace_def)

lemma countFace_quiet: "length F \<in> {4, 5, 6} \<Longrightarrow> snd (countFace v F s) = []"
  by (auto simp: countFace_def)

lemma countFace_at_Some:
  "countFace_at v f s = Some (s', w) \<longleftrightarrow>
     f < length (faces s) \<and> s' = fst (countFace v (faces s ! f) s)
     \<and> w = snd (countFace v (faces s ! f) s)"
  by (auto simp: countFace_at_def idx_def bind_eq_Some_conv)

lemma push_back_D:
  assumes "push_back f x s = Some s'"
  shows "f < length (faces s)" "length (faces s') = length (faces s)"
    "length (faces s' ! f) = Suc (length (faces s ! f))"
    "\<And>i. i \<noteq> f \<Longrightarrow> faces s' ! i = faces s ! i"
    "openfaces s' = openfaces s" "edges s' = edges s" "numverts s' = numverts s"
  using assms by (auto simp: push_back_Some)

lemma push_front_D:
  assumes "push_front f x s = Some s'"
  shows "f < length (faces s)" "length (faces s') = length (faces s)"
    "length (faces s' ! f) = Suc (length (faces s ! f))"
    "\<And>i. i \<noteq> f \<Longrightarrow> faces s' ! i = faces s ! i"
    "openfaces s' = openfaces s" "edges s' = edges s" "numverts s' = numverts s"
  using assms by (auto simp: push_front_Some)

lemma append_face_D:
  assumes "append_face f g s = Some s'"
  shows "f < length (faces s)" "g < length (faces s)" "length (faces s') = length (faces s)"
    "length (faces s' ! f) = length (faces s ! f) + length (faces s ! g)"
    "\<And>i. i \<noteq> f \<Longrightarrow> faces s' ! i = faces s ! i"
    "openfaces s' = openfaces s" "edges s' = edges s" "numverts s' = numverts s"
  using assms by (auto simp: append_face_Some)

lemma countFace_at_D:
  assumes "countFace_at v f s = Some (s', w)"
  shows "faces s' = faces s" "openfaces s' = openfaces s" "edges s' = edges s"
    "numverts s' = numverts s" "medgadd s' = medgadd s" "chosenFace s' = chosenFace s"
    "length (faces s ! f) \<in> {4, 5, 6} \<Longrightarrow> w = []"
  using assms by (auto simp: countFace_at_Some countFace_fields countFace_quiet)

lemma emplace_edge_fields [simp]:
  "faces (emplace_edge a b s) = faces s" "openfaces (emplace_edge a b s) = openfaces s"
  "numverts (emplace_edge a b s) = numverts s"
  "length (edges (emplace_edge a b s)) = Suc (length (edges s))"
  by (simp_all add: emplace_edge_def)

lemma incr_numverts_fields [simp]:
  "faces (incr_numverts s) = faces s" "openfaces (incr_numverts s) = openfaces s"
  "numverts (incr_numverts s) = numverts s + 1" "edges (incr_numverts s) = edges s"
  by (simp_all add: incr_numverts_def)

lemma new_face_fields [simp]:
  "length (faces (new_face x s)) = Suc (length (faces s))"
  "i < length (faces s) \<Longrightarrow> faces (new_face x s) ! i = faces s ! i"
  "openfaces (new_face x s) = openfaces s"
  "numverts (new_face x s) = numverts s" "edges (new_face x s) = edges s"
  by (simp_all add: new_face_def nth_append)

lemma switch_okI:
  assumes "refs_ok s" and "distinct (openfaces s1)"
    and "length (faces s) \<le> length (faces s1)"
    and "set (openfaces s1) = set (openfaces s) - R \<union> {length (faces s)..<length (faces s1)}"
    and "R \<subseteq> set (openfaces s)"
    and "\<And>i. i < length (faces s) \<Longrightarrow> i \<notin> set (openfaces s) \<Longrightarrow> faces s1 ! i = faces s ! i"
    and "distinct te" and "set te \<subseteq> R"
    and "\<And>i. i \<in> R \<Longrightarrow> i \<notin> set te \<Longrightarrow> length (faces s1 ! i) \<in> {4, 5, 6}"
  shows "switch_ok s s1 te"
proof -
  have new: "{length (faces s)..<length (faces s1)} \<inter> set (openfaces s) = {}"
    using assms(1) by (auto simp: refs_ok_def)
  have diff: "set (openfaces s) - set (openfaces s1) = R"
    using assms(4,5) new by auto
  show ?thesis
    unfolding switch_ok_def diff
    using assms(2,3,4,6,7,8,9) by auto
qed

lemma addEdges_1_effect:
  assumes run: "addEdges_1 v n oF noF pF fF nF startF endptF s = Some (s1, te, w)"
    and n: "n = length (openfaces s)" "2 \<le> n" "oF < n"
    and pos: "noF = (oF + 1) mod n"
    and ix: "pF = place s oF (n - 1)" "fF = place s oF 0" "nF = place s oF 1"
    and ok: "refs_ok s"
    and sz: "length (faces s ! fF) + 1 \<in> {4, 5, 6}"
      "n = 2 \<longrightarrow> length (faces s ! nF) + 1 \<in> {4, 5, 6}"
  shows "switch_ok s s1 te \<and> w = [] \<and> length (faces s1 ! fF) \<in> {4, 5, 6}
    \<and> numverts s1 = numverts s \<and> length (edges s1) = length (edges s) + 1
    \<and> length (faces s1) = length (faces s)
    \<and> length te = (if n = 2 then 0 else 1)
    \<and> length (openfaces s1) = n - 2"
proof -
  let ?E = "length (edges s)"
  from run[unfolded addEdges_1_def Let_def]
  obtain s2 s3 s4 where
    a: "push_back fF (length (edges (emplace_edge startF endptF s)) - 1) (emplace_edge startF endptF s) = Some s2"
    and b: "push_back pF (length (edges s2) - 1) s2 = Some s3"
    and c: "(if noF > oF then erase_range oF (oF + 2) s3
          else do { s \<leftarrow> erase_at oF s3; erase_at noF s }) = Some s4"
    and d: "(if n = 2 then do { (s, w) \<leftarrow> countFace_at v pF s4; Some (s, [], w) }
             else do { s \<leftarrow> append_face pF nF s4; Some (s, [nF], []) }) = Some (s1, te, w)"
    by (elim bindE) 
  have ne: "openfaces s \<noteq> []" using n by auto
  have fp: "fF \<noteq> pF" using place_inj[OF ok, of oF 0 "n - 1"] n ix ne by simp
  have fn: "fF \<noteq> nF" using place_inj[OF ok, of oF 0 1] n ix ne by simp
  have lt: "fF < length (faces s)" "pF < length (faces s)" "nF < length (faces s)"
    using place_lt[OF ok ne] ix by simp_all
  have mem: "fF \<in> set (openfaces s)" "nF \<in> set (openfaces s)" "pF \<in> set (openfaces s)"
    using place_mem[OF ne] ix by simp_all
  from a have s2: "faces s2 = (faces s)[fF := faces s ! fF @ [?E]]"
    "openfaces s2 = openfaces s" "length (edges s2) = ?E + 1" "numverts s2 = numverts s"
    by (auto simp: push_back_Some emplace_edge_def)
  from b s2 have s3: "faces s3 = (faces s)[fF := faces s ! fF @ [?E], pF := faces s ! pF @ [?E]]"
    "openfaces s3 = openfaces s" "length (edges s3) = ?E + 1" "numverts s3 = numverts s"
    using fp by (auto simp: push_back_Some)
  from erase_seq_1[OF _ _ _ c] n pos s3(2)
  have s4': "s4 = s3\<lparr>openfaces := cyc_remove (openfaces s) oF 2\<rparr>" by simp
  from s4' s3 have s4: "faces s4 = faces s3" "openfaces s4 = cyc_remove (openfaces s) oF 2"
    "length (edges s4) = ?E + 1" "numverts s4 = numverts s"
    by simp_all
  have rem: "set (cyc_remove (openfaces s) oF 2) = set (openfaces s) - {fF, nF}"
    using set_cyc_remove_place[OF ok, of oF 2 0] n ix by (simp add: image_lessThan_2)
  have dis: "distinct (cyc_remove (openfaces s) oF 2)"
    using ok n by (simp add: distinct_cyc_remove refs_ok_def)
  have len: "length (cyc_remove (openfaces s) oF 2) = n - 2"
    using n by (simp add: length_cyc_remove)
  have l3: "length (faces s3 ! fF) = length (faces s ! fF) + 1"
    "length (faces s3 ! pF) = length (faces s ! pF) + 1"
    using lt fp by (simp_all add: s3)
  have keep3: "faces s3 ! i = faces s ! i" if "i \<notin> set (openfaces s)" for i
  proof -
    from that mem have "i \<noteq> fF" "i \<noteq> pF" by auto
    then show ?thesis by (simp add: s3)
  qed
  show ?thesis
  proof (cases "n = 2")
    case True
    then have pn: "pF = nF" using ix by (simp add: place_def) 
    from d True have e: "countFace_at v pF s4 = Some (s1, w)" "te = []"
      by (auto elim!: bindE)
    from e s4 have s1: "faces s1 = faces s3" "openfaces s1 = cyc_remove (openfaces s) oF 2"
      "length (edges s1) = ?E + 1" "numverts s1 = numverts s"
      and w: "w = snd (countFace v (faces s3 ! pF) s4)"
      by (simp_all add: countFace_at_Some countFace_fields)
    have 1: "w = []" unfolding w using l3 sz True pn by (intro countFace_quiet) simp
    have 2: "length (faces s1 ! fF) \<in> {4, 5, 6}" using l3 sz s1 by simp
    have 3: "switch_ok s s1 te"
    proof (rule switch_okI[OF ok, where R="{fF, nF}"])
      show "distinct (openfaces s1)" using dis s1 by simp
      show "length (faces s) \<le> length (faces s1)" by (simp add: s1 s3)
      show "set (openfaces s1) = set (openfaces s) - {fF, nF} \<union> {length (faces s)..<length (faces s1)}"
        by (simp add: s1 s3 rem)
      show "{fF, nF} \<subseteq> set (openfaces s)" using mem by simp
      show "faces s1 ! i = faces s ! i" if "i \<notin> set (openfaces s)" for i
        using keep3[OF that] s1 by simp
      show "distinct te" "set te \<subseteq> {fF, nF}" using e(2) by simp_all
      show "length (faces s1 ! i) \<in> {4, 5, 6}" if "i \<in> {fF, nF}" for i
        using that l3 sz True pn s1 by auto
    qed
    have 4: "numverts s1 = numverts s" "length (edges s1) = length (edges s) + 1"
      "length (faces s1) = length (faces s)" "length te = (if n = 2 then 0 else 1)"
      "length (openfaces s1) = n - 2"
      using s1 e(2) True len by (simp_all add: s3)
    from 1 2 3 4 show ?thesis by blast
  next
    case False
    from d False have e: "append_face pF nF s4 = Some s1" "te = [nF]" "w = []"
      by (auto elim!: bindE)
    have pn: "pF \<noteq> nF" using place_inj[OF ok, of oF "n - 1" 1] n ix False ne by simp
    from e s4 have s1: "faces s1 = (faces s3)[pF := faces s3 ! pF @ faces s3 ! nF]"
      "openfaces s1 = cyc_remove (openfaces s) oF 2"
      "length (edges s1) = ?E + 1" "numverts s1 = numverts s"
      by (auto simp: append_face_Some)
    have lf: "length (faces s1 ! fF) = length (faces s ! fF) + 1"
      using lt fp l3 by (simp add: s1)
    have 1: "w = []" by fact
    have 2: "length (faces s1 ! fF) \<in> {4, 5, 6}" using lf sz by simp
    have 3: "switch_ok s s1 te"
    proof (rule switch_okI[OF ok, where R="{fF, nF}"])
      show "distinct (openfaces s1)" using dis s1 by simp
      show "length (faces s) \<le> length (faces s1)" by (simp add: s1 s3)
      show "set (openfaces s1) = set (openfaces s) - {fF, nF} \<union> {length (faces s)..<length (faces s1)}"
        by (simp add: s1 s3 rem)
      show "{fF, nF} \<subseteq> set (openfaces s)" using mem by simp
      show "faces s1 ! i = faces s ! i" if "i \<notin> set (openfaces s)" for i
      proof -
        from that mem have "i \<noteq> pF" by auto
        then show ?thesis using keep3[OF that] by (simp add: s1)
      qed
      show "distinct te" "set te \<subseteq> {fF, nF}" using e(2) by simp_all
      show "length (faces s1 ! i) \<in> {4, 5, 6}" if "i \<in> {fF, nF}" "i \<notin> set te" for i
        using that e(2) 2 by auto
    qed
    have 4: "numverts s1 = numverts s" "length (edges s1) = length (edges s) + 1"
      "length (faces s1) = length (faces s)" "length te = (if n = 2 then 0 else 1)"
      "length (openfaces s1) = n - 2"
      using s1 e(2) False len by (simp_all add: s3)
    from 1 2 3 4 show ?thesis by blast
  qed
qed

lemma addEdges_2_effect:
  assumes run: "addEdges_2 oF pF fF nF startF endptF s = Some (s1, te, w)"
    and n: "n = length (openfaces s)" "2 \<le> n" "oF < n"
    and ix: "pF = place s oF (n - 1)" "fF = place s oF 0" "nF = place s oF 1"
    and ok: "refs_ok s"
    and sz: "length (faces s ! fF) + 2 \<in> {4, 5, 6}"
  shows "switch_ok s s1 te \<and> w = [] \<and> length (faces s1 ! fF) \<in> {4, 5, 6}
    \<and> numverts s1 = numverts s + 1 \<and> length (edges s1) = length (edges s) + 2
    \<and> length (faces s1) = length (faces s)
    \<and> length te = 0
    \<and> length (openfaces s1) = n - 1"
proof -
  let ?E = "length (edges s)"
  from run[unfolded addEdges_2_def Let_def]
  obtain sc se sf sg where
    c: "push_back pF (length (edges (emplace_edge startF (numverts (incr_numverts s)) (incr_numverts s))) - 1)
          (emplace_edge startF (numverts (incr_numverts s)) (incr_numverts s)) = Some sc"
    and e: "push_back fF (length (edges (emplace_edge (numverts sc) endptF sc)) - 1)
          (emplace_edge (numverts sc) endptF sc) = Some se"
    and f: "push_back fF (length (edges se) - 2) se = Some sf"
    and g: "push_front nF (length (edges sf) - 1) sf = Some sg"
    and h: "erase_at oF sg = Some s1" and tw: "te = []" "w = []"
    by (elim bindE) auto
  have ne: "openfaces s \<noteq> []" using n by auto
  have fp: "fF \<noteq> pF" using place_inj[OF ok, of oF 0 "n - 1"] n ix ne by simp
  have fn: "fF \<noteq> nF" using place_inj[OF ok, of oF 0 1] n ix ne by simp
  have lt: "fF < length (faces s)" "pF < length (faces s)" "nF < length (faces s)"
    using place_lt[OF ok ne] ix by simp_all
  have mem: "fF \<in> set (openfaces s)" "nF \<in> set (openfaces s)" "pF \<in> set (openfaces s)"
    using place_mem[OF ne] ix by simp_all
  from c have sc: "faces sc = (faces s)[pF := faces s ! pF @ [?E]]"
    "openfaces sc = openfaces s" "length (edges sc) = ?E + 1" "numverts sc = numverts s + 1"
    by (auto simp: push_back_Some emplace_edge_def incr_numverts_def)
  from e sc have se: "faces se = (faces sc)[fF := faces sc ! fF @ [?E + 1]]"
    "openfaces se = openfaces s" "length (edges se) = ?E + 2" "numverts se = numverts s + 1"
    by (auto simp: push_back_Some emplace_edge_def)
  from f se have sf: "faces sf = (faces se)[fF := faces se ! fF @ [?E]]"
    "openfaces sf = openfaces s" "length (edges sf) = ?E + 2" "numverts sf = numverts s + 1"
    by (auto simp: push_back_Some)
  from g sf have sg: "faces sg = (faces sf)[nF := (?E + 1) # faces sf ! nF]"
    "openfaces sg = openfaces s" "length (edges sg) = ?E + 2" "numverts sg = numverts s + 1"
    by (auto simp: push_front_Some)
  from erase_seq_2[OF _ h] n sg
  have s1: "faces s1 = faces sg" "openfaces s1 = cyc_remove (openfaces s) oF (Suc 0)"
    "length (edges s1) = ?E + 2" "numverts s1 = numverts s + 1"
    by simp_all
  have rem: "set (cyc_remove (openfaces s) oF (Suc 0)) = set (openfaces s) - {fF}"
    using set_cyc_remove_place[OF ok, of oF "Suc 0" 0] n ix by (simp add: image_lessThan_1)
  have dis: "distinct (cyc_remove (openfaces s) oF (Suc 0))"
    using ok n by (simp add: distinct_cyc_remove refs_ok_def)
  have len: "length (cyc_remove (openfaces s) oF (Suc 0)) = n - 1"
    using n by (simp add: length_cyc_remove)
  have lF: "length (faces s1 ! fF) = length (faces s ! fF) + 2"
    using lt fp fn by (simp add: s1 sg sf se sc)
  have lens: "length (faces s1) = length (faces s)"
    by (simp add: s1 sg sf se sc)
  have keep: "faces s1 ! i = faces s ! i" if "i \<notin> set (openfaces s)" for i
  proof -
    from that mem have "i \<noteq> fF" "i \<noteq> pF" "i \<noteq> nF" by auto
    then show ?thesis by (simp add: s1 sg sf se sc)
  qed
  have 2: "length (faces s1 ! fF) \<in> {4, 5, 6}" using lF sz by simp
  have 3: "switch_ok s s1 te"
  proof (rule switch_okI[OF ok, where R="{fF}"])
    show "distinct (openfaces s1)" using dis s1 by simp
    show "length (faces s) \<le> length (faces s1)" by (simp add: lens)
    show "set (openfaces s1) = set (openfaces s) - {fF} \<union> {length (faces s)..<length (faces s1)}"
      by (simp add: s1(2) lens rem)
    show "{fF} \<subseteq> set (openfaces s)" using mem by simp
    show "faces s1 ! i = faces s ! i" if "i \<notin> set (openfaces s)" for i
      using keep[OF that] .
    show "distinct te" "set te \<subseteq> {fF}" using tw by simp_all
    show "length (faces s1 ! i) \<in> {4, 5, 6}" if "i \<in> {fF}" for i
      using that 2 by simp
  qed
  from 2 3 tw s1 lens len show ?thesis by simp
qed

lemma list_update_fresh:
  assumes "distinct xs" "i < length xs" "x \<notin> set xs"
  shows "distinct (xs[i := x])" "set (xs[i := x]) = set xs - {xs ! i} \<union> {x}"
  using assms by (auto simp: distinct_list_update set_update_distinct)

lemma addEdges_5_effect:
  assumes run: "addEdges_5 oF pF fF nF startF endptF s = Some (s1, te, w)"
    and n: "n = length (openfaces s)" "2 \<le> n" "oF < n"
    and ix: "pF = place s oF (n - 1)" "fF = place s oF 0" "nF = place s oF 1"
    and ok: "refs_ok s"
    and sz: "length (faces s ! fF) + 3 \<in> {4, 5, 6}"
  shows "switch_ok s s1 te \<and> w = [] \<and> length (faces s1 ! fF) \<in> {4, 5, 6}
    \<and> numverts s1 = numverts s + 2 \<and> length (edges s1) = length (edges s) + 3
    \<and> length (faces s1) = length (faces s) + 1
    \<and> length te = 0
    \<and> length (openfaces s1) = n"
proof -
  let ?E = "length (edges s)"
  let ?F = "length (faces s)"
  let ?sa = "emplace_edge startF (numverts (incr_numverts s)) (incr_numverts s)"
  from run[unfolded addEdges_5_def Let_def]
  obtain sc sd se sf sg where
    c: "push_back pF (length (edges ?sa) - 1) ?sa = Some sc"
    and d: "set_open oF
          (length (faces (new_face (length (edges (emplace_edge (numverts (incr_numverts sc) - 1)
               (numverts (incr_numverts sc)) (incr_numverts sc))) - 1)
             (emplace_edge (numverts (incr_numverts sc) - 1) (numverts (incr_numverts sc))
               (incr_numverts sc)))) - 1)
          (new_face (length (edges (emplace_edge (numverts (incr_numverts sc) - 1)
               (numverts (incr_numverts sc)) (incr_numverts sc))) - 1)
             (emplace_edge (numverts (incr_numverts sc) - 1) (numverts (incr_numverts sc))
               (incr_numverts sc))) = Some sd"
    and e: "push_back fF (length (edges (emplace_edge (numverts sd) endptF sd)) - 1)
          (emplace_edge (numverts sd) endptF sd) = Some se"
    and f: "push_back fF (length (edges se) - 2) se = Some sf"
    and g: "push_back fF (length (edges sf) - 3) sf = Some sg"
    and h: "push_front nF (length (edges sg) - 1) sg = Some s1" and tw: "te = []" "w = []"
    by (elim bindE) auto
  have ne: "openfaces s \<noteq> []" using n by auto
  have fp: "fF \<noteq> pF" using place_inj[OF ok, of oF 0 "n - 1"] n ix ne by simp
  have fn: "fF \<noteq> nF" using place_inj[OF ok, of oF 0 1] n ix ne by simp
  have lt: "fF < length (faces s)" "pF < length (faces s)" "nF < length (faces s)"
    using place_lt[OF ok ne] ix by simp_all
  have mem: "fF \<in> set (openfaces s)" "nF \<in> set (openfaces s)" "pF \<in> set (openfaces s)"
    using place_mem[OF ne] ix by simp_all
  have fFo: "fF = openfaces s ! oF" using ix n by (simp add: place_0)
  from c have sc: "faces sc = (faces s)[pF := faces s ! pF @ [?E]]"
    "openfaces sc = openfaces s" "length (edges sc) = ?E + 1" "numverts sc = numverts s + 1"
    by (auto simp: push_back_Some emplace_edge_def incr_numverts_def)
  from d sc have sd: "faces sd = faces sc @ [[?E + 1]]"
    "openfaces sd = (openfaces s)[oF := ?F]" "length (edges sd) = ?E + 2"
    "numverts sd = numverts s + 2"
    by (auto simp: set_open_Some emplace_edge_def incr_numverts_def new_face_def)
  from e sd have se: "faces se = (faces sd)[fF := faces sd ! fF @ [?E + 2]]"
    "openfaces se = openfaces sd" "length (edges se) = ?E + 3" "numverts se = numverts s + 2"
    by (auto simp: push_back_Some emplace_edge_def)
  from f se have sf: "faces sf = (faces se)[fF := faces se ! fF @ [?E + 1]]"
    "openfaces sf = openfaces sd" "length (edges sf) = ?E + 3" "numverts sf = numverts s + 2"
    by (auto simp: push_back_Some)
  from g sf have sg: "faces sg = (faces sf)[fF := faces sf ! fF @ [?E]]"
    "openfaces sg = openfaces sd" "length (edges sg) = ?E + 3" "numverts sg = numverts s + 2"
    by (auto simp: push_back_Some)
  from h sg have s1: "faces s1 = (faces sg)[nF := (?E + 2) # faces sg ! nF]"
    "openfaces s1 = openfaces sd" "length (edges s1) = ?E + 3" "numverts s1 = numverts s + 2"
    by (auto simp: push_front_Some)
  have Fnew: "?F \<notin> set (openfaces s)" using ok by (auto simp: refs_ok_def)
  have d: "distinct (openfaces s)" using ok by (simp add: refs_ok_def)
  have lF: "length (faces s1 ! fF) = length (faces s ! fF) + 3"
    using lt fp fn by (simp add: s1 sg sf se sd sc nth_append)
  have lens: "length (faces s1) = length (faces s) + 1"
    by (simp add: s1 sg sf se sd sc)
  have keep: "faces s1 ! i = faces s ! i" if "i \<notin> set (openfaces s)" "i < length (faces s)" for i
  proof -
    from that mem have "i \<noteq> fF" "i \<noteq> pF" "i \<noteq> nF" by auto
    then show ?thesis using that(2) by (simp add: s1 sg sf se sd sc nth_append)
  qed
  have 2: "length (faces s1 ! fF) \<in> {4, 5, 6}" using lF sz by simp
  have 3: "switch_ok s s1 te"
  proof (rule switch_okI[OF ok, where R="{fF}"])
    show "distinct (openfaces s1)" using list_update_fresh(1)[OF d _ Fnew] n by (simp add: s1 sd)
    show "length (faces s) \<le> length (faces s1)" by (simp add: lens)
    show "set (openfaces s1) = set (openfaces s) - {fF} \<union> {length (faces s)..<length (faces s1)}"
      using list_update_fresh(2)[OF d _ Fnew, of oF] n by (simp add: s1(2) sd(2) lens fFo)
    show "{fF} \<subseteq> set (openfaces s)" using mem by simp
    show "faces s1 ! i = faces s ! i" if "i < length (faces s)" "i \<notin> set (openfaces s)" for i
      using keep[OF that(2,1)] .
    show "distinct te" "set te \<subseteq> {fF}" using tw by simp_all
    show "length (faces s1 ! i) \<in> {4, 5, 6}" if "i \<in> {fF}" for i
      using that 2 by simp
  qed
  from 2 3 tw s1 lens n show ?thesis by (simp add: sd)
qed

lemma insert_then_set:
  assumes "oF < length xs"
  shows "(take oF xs @ a # drop oF xs)[Suc oF := b] = take oF xs @ a # b # drop (Suc oF) xs"
proof -
  have "drop oF xs = xs ! oF # drop (Suc oF) xs" using assms by (simp add: Cons_nth_drop_Suc)
  then show ?thesis using assms by (simp add: list_update_append)
qed

lemma two_fresh:
  assumes "distinct xs" "oF < length xs" "a \<notin> set xs" "b \<notin> set xs" "a \<noteq> b"
  shows "distinct (take oF xs @ a # b # drop (Suc oF) xs)"
    and "set (take oF xs @ a # b # drop (Suc oF) xs) = set xs - {xs ! oF} \<union> {a, b}"
proof -
  have xs: "xs = take oF xs @ xs ! oF # drop (Suc oF) xs" using assms(2) by (rule id_take_nth_drop)
  have d: "distinct (take oF xs @ xs ! oF # drop (Suc oF) xs)" using assms(1) xs by simp
  have sub: "set (take oF xs) \<subseteq> set xs" "set (drop (Suc oF) xs) \<subseteq> set xs"
    by (auto dest: in_set_takeD in_set_dropD)
  show "distinct (take oF xs @ a # b # drop (Suc oF) xs)"
    using d assms(3-5) sub by auto
  have "set xs = set (take oF xs) \<union> {xs ! oF} \<union> set (drop (Suc oF) xs)"
    using arg_cong[OF xs, of set] by simp
  moreover have "xs ! oF \<notin> set (take oF xs)" "xs ! oF \<notin> set (drop (Suc oF) xs)"
    using d by auto
  ultimately show "set (take oF xs @ a # b # drop (Suc oF) xs) = set xs - {xs ! oF} \<union> {a, b}"
    by auto
qed

lemma addEdges_10_effect:
  assumes run: "addEdges_10 oF pF fF nF startF endptF s = Some (s1, te, w)"
    and n: "n = length (openfaces s)" "2 \<le> n" "oF < n"
    and ix: "pF = place s oF (n - 1)" "fF = place s oF 0" "nF = place s oF 1"
    and ok: "refs_ok s"
    and sz: "length (faces s ! fF) + 4 \<in> {4, 5, 6}"
  shows "switch_ok s s1 te \<and> w = [] \<and> length (faces s1 ! fF) \<in> {4, 5, 6}
    \<and> numverts s1 = numverts s + 3 \<and> length (edges s1) = length (edges s) + 4
    \<and> length (faces s1) = length (faces s) + 2
    \<and> length te = 0
    \<and> length (openfaces s1) = n + 1"
proof -
  let ?E = "length (edges s)"
  let ?F = "length (faces s)"
  let ?sa = "emplace_edge startF (numverts (incr_numverts s)) (incr_numverts s)"
  from run[unfolded addEdges_10_def Let_def]
  obtain sb sc sd se sf sg sh where
    b: "push_back fF (length (edges ?sa) - 1) ?sa = Some sb"
    and c: "push_back pF (length (edges sb) - 1) sb = Some sc"
    and d: "push_back fF (length (edges (emplace_edge (numverts (incr_numverts sc) - 1)
               (numverts (incr_numverts sc)) (incr_numverts sc))) - 1)
             (emplace_edge (numverts (incr_numverts sc) - 1) (numverts (incr_numverts sc))
               (incr_numverts sc)) = Some sd"
    and e: "insert_open oF (length (faces (new_face (length (edges sd) - 1) sd)) - 1)
             (new_face (length (edges sd) - 1) sd) = Some se"
    and f: "push_back fF (length (edges (emplace_edge (numverts (incr_numverts se) - 1)
               (numverts (incr_numverts se)) (incr_numverts se))) - 1)
             (emplace_edge (numverts (incr_numverts se) - 1) (numverts (incr_numverts se))
               (incr_numverts se)) = Some sf"
    and g: "set_open (oF + 1) (length (faces (new_face (length (edges sf) - 1) sf)) - 1)
             (new_face (length (edges sf) - 1) sf) = Some sg"
    and h: "push_back fF (length (edges (emplace_edge (numverts sg) endptF sg)) - 1)
             (emplace_edge (numverts sg) endptF sg) = Some sh"
    and i: "push_front nF (length (edges sh) - 1) sh = Some s1" and tw: "te = []" "w = []"
    by (elim bindE) auto
  have ne: "openfaces s \<noteq> []" using n by auto
  have fp: "fF \<noteq> pF" using place_inj[OF ok, of oF 0 "n - 1"] n ix ne by simp
  have fn: "fF \<noteq> nF" using place_inj[OF ok, of oF 0 1] n ix ne by simp
  have lt: "fF < length (faces s)" "pF < length (faces s)" "nF < length (faces s)"
    using place_lt[OF ok ne] ix by simp_all
  have mem: "fF \<in> set (openfaces s)" "nF \<in> set (openfaces s)" "pF \<in> set (openfaces s)"
    using place_mem[OF ne] ix by simp_all
  have fFo: "fF = openfaces s ! oF" using ix n by (simp add: place_0)
  note B = push_back_D[OF b] and C = push_back_D[OF c] and D = push_back_D[OF d]
    and E = insert_open_Some[THEN iffD1, OF e] and F = push_back_D[OF f]
    and G = set_open_Some[THEN iffD1, OF g] and H = push_back_D[OF h]
    and I = push_front_D[OF i]
  have o1: "openfaces s1 = take oF (openfaces s) @ ?F # (?F + 1) # drop (Suc oF) (openfaces s)"
    using insert_then_set[of oF "openfaces s" ?F "?F + 1"] n
    by (simp add: I H G E F D C B)
  have Fnew: "?F \<notin> set (openfaces s)" "?F + 1 \<notin> set (openfaces s)"
    using ok by (auto simp: refs_ok_def)
  have dd: "distinct (openfaces s)" using ok by (simp add: refs_ok_def)
  have lens: "length (faces s1) = length (faces s) + 2"
    by (simp add: I H G E F D C B)
  have lF: "length (faces s1 ! fF) = length (faces s ! fF) + 4"
    using lt fp fn by (simp add: I H G E F D C B)
  have s1: "length (edges s1) = ?E + 4" "numverts s1 = numverts s + 3"
    by (simp_all add: I H G E F D C B)
  have keep: "faces s1 ! i = faces s ! i" if "i \<notin> set (openfaces s)" "i < length (faces s)" for i
  proof -
    from that mem have "i \<noteq> fF" "i \<noteq> pF" "i \<noteq> nF" by auto
    then show ?thesis using that(2) by (simp add: I H G E F D C B)
  qed
  have 2: "length (faces s1 ! fF) \<in> {4, 5, 6}" using lF sz by simp
  have 3: "switch_ok s s1 te"
  proof (rule switch_okI[OF ok, where R="{fF}"])
    show "distinct (openfaces s1)" unfolding o1 using two_fresh(1)[OF dd _ Fnew] n by simp
    show "length (faces s) \<le> length (faces s1)" by (simp add: lens)
    have "{?F..<?F + 2} = {?F, ?F + 1}" by auto
    then show "set (openfaces s1) = set (openfaces s) - {fF} \<union> {length (faces s)..<length (faces s1)}"
      unfolding o1 lens using two_fresh(2)[OF dd _ Fnew, of oF] n by (simp add: fFo)
    show "{fF} \<subseteq> set (openfaces s)" using mem by simp
    show "faces s1 ! i = faces s ! i" if "i < length (faces s)" "i \<notin> set (openfaces s)" for i
      using keep[OF that(2,1)] .
    show "distinct te" "set te \<subseteq> {fF}" using tw by simp_all
    show "length (faces s1 ! i) \<in> {4, 5, 6}" if "i \<in> {fF}" for i
      using that 2 by simp
  qed
  have "length (openfaces s1) = n + 1" unfolding o1 using n by simp
  with 2 3 tw s1 lens show ?thesis by simp
qed

lemma bind_pairE:
  assumes "Option.bind m (case_prod f) = Some y"
  obtains a b where "m = Some (a, b)" "f a b = Some y"
  using assms by (auto simp: bind_eq_Some_conv)

lemma addEdges_3_6_effect:
  assumes run: "addEdges_3_6 v meth n oF noF nnoF nnnoF pF fF nF nnF nnnF startF endptF s
      = Some (s1, te, w)"
    and n: "n = length (openfaces s)" "oF < n" "n = 4 \<or> 6 \<le> n"
    and pos: "noF = (oF + 1) mod n" "nnoF = (oF + 2) mod n" "nnnoF = (oF + 3) mod n"
    and ix: "pF = place s oF (n - 1)" "fF = place s oF 0" "nF = place s oF 1"
      "nnF = place s oF 2" "nnnF = place s oF 3"
    and ok: "refs_ok s"
    and sz: "length (faces s ! fF) + length (faces s ! nnF) + 2 \<in> {4, 5, 6}"
      "length (faces s ! nF) + 1 \<in> {4, 5, 6}"
      "n = 4 \<longrightarrow> length (faces s ! pF) + 1 \<in> {4, 5, 6}"
  shows "switch_ok s s1 te \<and> w = [] \<and> length (faces s1 ! fF) \<in> {4, 5, 6}
    \<and> numverts s1 = numverts s \<and> length (edges s1) = length (edges s) + 2
    \<and> length (faces s1) = length (faces s)
    \<and> length te = (if n = 4 then 1 else 2)
    \<and> length (openfaces s1) = n - 4"
proof -
  from run[unfolded addEdges_3_6_def Let_def]
  obtain e sb sc sd w1 se e2 sf sg sh where
    b: "push_back fF (length (edges (emplace_edge endptF e s)) - 1) (emplace_edge endptF e s) = Some sb"
    and c: "push_back nF (length (edges sb) - 1) sb = Some sc"
    and d: "countFace_at v nF sc = Some (sd, w1)"
    and e: "append_face fF nnF sd = Some se"
    and f: "push_back fF (length (edges (emplace_edge startF e2 se)) - 1) (emplace_edge startF e2 se) = Some sf"
    and g: "push_back pF (length (edges sf) - 1) sf = Some sg"
    and h: "(if nnnoF > oF then erase_range oF (oF + 4) sg
            else if nnoF > oF then do { s \<leftarrow> erase_range oF (oF + 3) sg; erase_at nnnoF s }
            else if noF > oF then do {
              s \<leftarrow> erase_range oF (oF + 2) sg;
              erase_range nnoF (nnoF + 2) s }
            else do { s \<leftarrow> erase_at oF sg; erase_range noF (noF + 3) s }) = Some sh"
    and i: "(if n = 4 then do {
              (s, w2) \<leftarrow> countFace_at v pF sh;
              Some (s, [nnF], w1 @ w2)
            } else do {
              s \<leftarrow> append_face pF nnnF sh;
              Some (s, [nnF, nnnF], w1)
            }) = Some (s1, te, w)"
    by (elim bind_pairE bindE)
  have n4: "4 \<le> n" using n(3) by auto
  have ne: "openfaces s \<noteq> []" using n by auto
  have inj: "place s oF k = place s oF k' \<longleftrightarrow> k = k'" if "k < n" "k' < n" for k k'
    using place_inj[OF ok, of oF k k'] n that by simp
  have fn: "fF \<noteq> nF" "fF \<noteq> nnF" "fF \<noteq> nnnF" "fF \<noteq> pF" "nF \<noteq> nnF" "nF \<noteq> nnnF"
    "nnF \<noteq> nnnF" "nnF \<noteq> pF" "nF \<noteq> pF"
    using n4 ix inj[of 0 1] inj[of 0 2] inj[of 0 3] inj[of 0 "n - 1"] inj[of 1 2] inj[of 1 3]
      inj[of 2 3] inj[of 2 "n - 1"] inj[of 1 "n - 1"]
    by simp_all
  have lt: "fF < length (faces s)" "pF < length (faces s)" "nF < length (faces s)"
    "nnF < length (faces s)" "nnnF < length (faces s)"
    using place_lt[OF ok ne] ix by simp_all
  have mem: "fF \<in> set (openfaces s)" "nF \<in> set (openfaces s)" "pF \<in> set (openfaces s)"
    "nnF \<in> set (openfaces s)" "nnnF \<in> set (openfaces s)"
    using place_mem[OF ne] ix by simp_all
  note B = push_back_D[OF b] and C = push_back_D[OF c] and D = countFace_at_D[OF d]
    and E = append_face_D[OF e] and F = push_back_D[OF f] and G = push_back_D[OF g]
  have og: "openfaces sg = openfaces s" by (simp add: G F E D C B)
  from erase_seq_36[OF _ _ _ _ _ h] n n4 pos og
  have H': "sh = sg\<lparr>openfaces := cyc_remove (openfaces s) oF 4\<rparr>" by simp
  then have H: "faces sh = faces sg" "openfaces sh = cyc_remove (openfaces s) oF 4"
    "edges sh = edges sg" "numverts sh = numverts sg" by simp_all
  have rem: "set (cyc_remove (openfaces s) oF 4) = set (openfaces s) - {fF, nF, nnF, nnnF}"
    using set_cyc_remove_place[OF ok, of oF 4 0] n n4 ix by (simp add: image_lessThan_4)
  have dis: "distinct (cyc_remove (openfaces s) oF 4)"
    using ok n n4 by (simp add: distinct_cyc_remove refs_ok_def)
  have len: "length (cyc_remove (openfaces s) oF 4) = n - 4"
    using n n4 by (simp add: length_cyc_remove)
  have w1: "w1 = []"
    using D(7) C(3) B(4)[of nF] fn sz(2) by simp
  have lF: "length (faces sh ! fF) = length (faces s ! fF) + length (faces s ! nnF) + 2"
    using fn by (simp add: H G F E D C B)
  have lN: "length (faces sh ! nF) = length (faces s ! nF) + 1"
    using fn by (simp add: H G F E D C B)
  have lP: "length (faces sh ! pF) = length (faces s ! pF) + 1"
    using fn by (simp add: H G F E D C B)
  have lens: "length (faces sh) = length (faces s)"
    by (simp add: H G F E D C B)
  have cnt: "length (edges sh) = length (edges s) + 2" "numverts sh = numverts s"
    by (simp_all add: H G F E D C B)
  have keep: "faces sh ! i = faces s ! i" if "i \<notin> set (openfaces s)" for i
  proof -
    from that mem have "i \<noteq> fF" "i \<noteq> pF" "i \<noteq> nF" by auto
    then show ?thesis by (simp add: H G F E D C B)
  qed
  show ?thesis
  proof (cases "n = 4")
    case True
    then have pn: "pF = nnnF" using ix by simp
    from i True obtain w2 where j: "countFace_at v pF sh = Some (s1, w2)" and tw: "te = [nnF]" "w = w1 @ w2"
      by (auto elim!: bind_pairE)
    note J = countFace_at_D[OF j]
    have w2: "w2 = []" using J(7) lP sz(3) True by simp
    have 3: "switch_ok s s1 te"
    proof (rule switch_okI[OF ok, where R="{fF, nF, nnF, nnnF}"])
      show "distinct (openfaces s1)" using dis by (simp add: J H)
      show "length (faces s) \<le> length (faces s1)" by (simp add: J lens)
      have "length (faces s1) = length (faces s)" "openfaces s1 = cyc_remove (openfaces s) oF 4"
        using lens by (simp_all add: J H)
      then show "set (openfaces s1) = set (openfaces s) - {fF, nF, nnF, nnnF} \<union> {length (faces s)..<length (faces s1)}"
        using rem by simp
      show "{fF, nF, nnF, nnnF} \<subseteq> set (openfaces s)" using mem by simp
      show "faces s1 ! i = faces s ! i" if "i \<notin> set (openfaces s)" for i
        using keep[OF that] by (simp add: J)
      show "distinct te" "set te \<subseteq> {fF, nF, nnF, nnnF}" using tw by simp_all
      show "length (faces s1 ! i) \<in> {4, 5, 6}" if "i \<in> {fF, nF, nnF, nnnF}" "i \<notin> set te" for i
        using that tw lF lN lP sz True pn by (auto simp: J)
    qed
    from 3 w1 w2 tw lF sz(1) cnt lens len True show ?thesis by (simp add: J H)
  next
    case False
    then have n6: "6 \<le> n" using n(3) by simp
    from i False have j: "append_face pF nnnF sh = Some s1" and tw: "te = [nnF, nnnF]" "w = w1"
      by (auto elim!: bindE)
    note J = append_face_D[OF j]
    have pn: "pF \<noteq> nnnF" using ix inj[of "n - 1" 3] n6 by simp
    have 3: "switch_ok s s1 te"
    proof (rule switch_okI[OF ok, where R="{fF, nF, nnF, nnnF}"])
      show "distinct (openfaces s1)" using dis by (simp add: J H)
      show "length (faces s) \<le> length (faces s1)" by (simp add: J lens)
      have "length (faces s1) = length (faces s)" "openfaces s1 = cyc_remove (openfaces s) oF 4"
        using lens by (simp_all add: J H)
      then show "set (openfaces s1) = set (openfaces s) - {fF, nF, nnF, nnnF} \<union> {length (faces s)..<length (faces s1)}"
        using rem by simp
      show "{fF, nF, nnF, nnnF} \<subseteq> set (openfaces s)" using mem by simp
      show "faces s1 ! i = faces s ! i" if "i \<notin> set (openfaces s)" for i
      proof -
        from that mem have "i \<noteq> pF" by auto
        then show ?thesis using keep[OF that] by (simp add: J)
      qed
      show "distinct te" "set te \<subseteq> {fF, nF, nnF, nnnF}" using tw fn by simp_all
      show "length (faces s1 ! i) \<in> {4, 5, 6}" if "i \<in> {fF, nF, nnF, nnnF}" "i \<notin> set te" for i
        using that tw lF lN sz fn by (auto simp: J)
    qed
    have "length (faces s1 ! fF) \<in> {4, 5, 6}" using lF sz(1) fn by (simp add: J)
    with 3 w1 tw cnt lens len False show ?thesis by (simp add: J H)
  qed
qed

lemma place_n: "place s oF (length (openfaces s)) = place s oF 0"
  using place_mod[of s oF 0] by simp

lemma place_Sn: "place s oF (Suc (length (openfaces s))) = place s oF 1"
  using place_mod[of s oF 1] by simp

lemma addEdges_4_7_effect:
  assumes run: "addEdges_4_7 v meth n oF ppoF poF noF pppF ppF pF fF nF startF endptF s
      = Some (s1, te, w)"
    and n: "n = length (openfaces s)" "oF < n" "6 \<le> n"
    and pos: "ppoF = (oF + (n - 2)) mod n" "poF = (oF + (n - 1)) mod n" "noF = (oF + 1) mod n"
    and ix: "pppF = place s oF (n - 3)" "ppF = place s oF (n - 2)" "pF = place s oF (n - 1)"
      "fF = place s oF 0" "nF = place s oF 1"
    and ok: "refs_ok s"
    and sz: "length (faces s ! fF) + length (faces s ! ppF) + 2 \<in> {4, 5, 6}"
      "length (faces s ! pF) + 1 \<in> {4, 5, 6}"
  shows "switch_ok s s1 te \<and> w = [] \<and> length (faces s1 ! fF) \<in> {4, 5, 6}
    \<and> numverts s1 = numverts s \<and> length (edges s1) = length (edges s) + 2
    \<and> length (faces s1) = length (faces s)
    \<and> length te = 2
    \<and> length (openfaces s1) = n - 4"
proof -
  from run[unfolded addEdges_4_7_def Let_def]
  obtain e sb sc sd w1 se e2 sf sg sh where
    b: "push_back fF (length (edges (emplace_edge e startF s)) - 1) (emplace_edge e startF s) = Some sb"
    and c: "push_back pF (length (edges sb) - 1) sb = Some sc"
    and d: "countFace_at v pF sc = Some (sd, w1)"
    and e: "append_face fF ppF sd = Some se"
    and f: "push_back fF (length (edges (emplace_edge e2 endptF se)) - 1) (emplace_edge e2 endptF se) = Some sf"
    and g: "push_back pppF (length (edges sf) - 1) sf = Some sg"
    and h: "(if ppoF < noF then erase_range ppoF (noF + 1) sg
            else if poF < noF then do { s \<leftarrow> erase_at ppoF sg; erase_range poF (noF + 1) s }
            else if oF < noF then do {
              s \<leftarrow> erase_range ppoF (poF + 1) sg;
              erase_range oF (noF + 1) s }
            else do { s \<leftarrow> erase_range ppoF (oF + 1) sg; erase_at noF s }) = Some sh"
    and i: "(if n = 4 then do {
              (s, w2) \<leftarrow> countFace_at v nF sh;
              Some (s, [ppF], w1 @ w2)
            } else do {
              s \<leftarrow> append_face pppF nF sh;
              Some (s, [ppF, nF], w1)
            }) = Some (s1, te, w)"
    by (elim bind_pairE bindE)
  have n4: "4 \<le> n" "n \<noteq> 4" using n(3) by auto
  have ne: "openfaces s \<noteq> []" using n by auto
  have inj: "place s oF k = place s oF k' \<longleftrightarrow> k = k'" if "k < n" "k' < n" for k k'
    using place_inj[OF ok, of oF k k'] n that by simp
  have fn: "fF \<noteq> nF" "fF \<noteq> pF" "fF \<noteq> ppF" "fF \<noteq> pppF" "pF \<noteq> ppF" "pF \<noteq> pppF"
    "pF \<noteq> nF" "ppF \<noteq> pppF" "ppF \<noteq> nF" "pppF \<noteq> nF"
    using n(3) ix inj[of 0 1] inj[of 0 "n - 1"] inj[of 0 "n - 2"] inj[of 0 "n - 3"]
      inj[of "n - 1" "n - 2"] inj[of "n - 1" "n - 3"] inj[of "n - 1" 1]
      inj[of "n - 2" "n - 3"] inj[of "n - 2" 1] inj[of "n - 3" 1]
    by simp_all
  have lt: "fF < length (faces s)" "pF < length (faces s)" "nF < length (faces s)"
    "ppF < length (faces s)" "pppF < length (faces s)"
    using place_lt[OF ok ne] ix by simp_all
  have mem: "fF \<in> set (openfaces s)" "nF \<in> set (openfaces s)" "pF \<in> set (openfaces s)"
    "ppF \<in> set (openfaces s)" "pppF \<in> set (openfaces s)"
    using place_mem[OF ne] ix by simp_all
  note B = push_back_D[OF b] and C = push_back_D[OF c] and D = countFace_at_D[OF d]
    and E = append_face_D[OF e] and F = push_back_D[OF f] and G = push_back_D[OF g]
  have og: "openfaces sg = openfaces s" by (simp add: G F E D C B)
  from erase_seq_47[OF _ _ _ _ _ h] n n4 pos og
  have H': "sh = sg\<lparr>openfaces := cyc_remove (openfaces s) ppoF 4\<rparr>" by simp
  then have H: "faces sh = faces sg" "openfaces sh = cyc_remove (openfaces s) ppoF 4"
    "edges sh = edges sg" "numverts sh = numverts sg" by simp_all
  have e1: "n - 2 + 0 = n - 2" "n - 2 + 1 = n - 1" "n - 2 + 2 = n" "n - 2 + 3 = Suc n"
    using n(3) by simp_all
  have pl: "place s oF n = fF" "place s oF (Suc n) = nF"
    using ix n(1) place_n[of s oF] place_Sn[of s oF] by simp_all
  have A: "set (cyc_remove (openfaces s) ((oF + (n - 2)) mod length (openfaces s)) 4)
      = set (openfaces s) - (\<lambda>j. place s oF (n - 2 + j)) ` {..<4}"
    by (rule set_cyc_remove_place[OF ok]) (use n n4 in simp_all)
  have Bq: "(\<lambda>j. place s oF (n - 2 + j)) ` {..<4} = {ppF, pF, fF, nF}"
    unfolding image_lessThan_4 e1 pl ix(2,3) ..
  have rem: "set (cyc_remove (openfaces s) ppoF 4) = set (openfaces s) - {ppF, pF, fF, nF}"
    unfolding pos(1) using A[unfolded Bq] n(1) by simp
  have plt: "ppoF < n" using pos(1) ne n(1) by simp
  have dis: "distinct (cyc_remove (openfaces s) ppoF 4)"
    using ok n n4 plt by (simp add: distinct_cyc_remove refs_ok_def)
  have len: "length (cyc_remove (openfaces s) ppoF 4) = n - 4"
    using n n4 plt by (simp add: length_cyc_remove)
  have w1: "w1 = []"
    using D(7) C(3) B(4)[of pF] fn sz(2) by simp
  from i n4 have j: "append_face pppF nF sh = Some s1" and tw: "te = [ppF, nF]" "w = w1"
    by (auto elim!: bindE)
  note J = append_face_D[OF j]
  have lF: "length (faces s1 ! fF) = length (faces s ! fF) + length (faces s ! ppF) + 2"
    using fn by (simp add: J H G F E D C B)
  have lP: "length (faces s1 ! pF) = length (faces s ! pF) + 1"
    using fn by (simp add: J H G F E D C B)
  have lens: "length (faces s1) = length (faces s)"
    by (simp add: J H G F E D C B)
  have cnt: "length (edges s1) = length (edges s) + 2" "numverts s1 = numverts s"
    by (simp_all add: J H G F E D C B)
  have o1: "openfaces s1 = cyc_remove (openfaces s) ppoF 4" by (simp add: J H)
  have keep: "faces s1 ! i = faces s ! i" if "i \<notin> set (openfaces s)" for i
  proof -
    from that mem have "i \<noteq> fF" "i \<noteq> pF" "i \<noteq> pppF" by auto
    then show ?thesis by (simp add: J H G F E D C B)
  qed
  have 3: "switch_ok s s1 te"
  proof (rule switch_okI[OF ok, where R="{ppF, pF, fF, nF}"])
    show "distinct (openfaces s1)" using dis o1 by simp
    show "length (faces s) \<le> length (faces s1)" by (simp add: lens)
    show "set (openfaces s1) = set (openfaces s) - {ppF, pF, fF, nF} \<union> {length (faces s)..<length (faces s1)}"
      using rem o1 lens by simp
    show "{ppF, pF, fF, nF} \<subseteq> set (openfaces s)" using mem by simp
    show "faces s1 ! i = faces s ! i" if "i \<notin> set (openfaces s)" for i
      using keep[OF that] .
    show "distinct te" "set te \<subseteq> {ppF, pF, fF, nF}" using tw fn by simp_all
    show "length (faces s1 ! i) \<in> {4, 5, 6}" if "i \<in> {ppF, pF, fF, nF}" "i \<notin> set te" for i
      using that tw lF lP sz by auto
  qed
  have "length (faces s1 ! fF) \<in> {4, 5, 6}" using lF sz(1) by simp
  with 3 w1 tw cnt lens len o1 show ?thesis by simp
qed

lemma addEdges_8_effect:
  assumes run: "addEdges_8 v oF noF nnoF pF fF nF nnF nnnF startF endptF s = Some (s1, te, w)"
    and n: "n = length (openfaces s)" "oF < n" "5 \<le> n"
    and pos: "noF = (oF + 1) mod n" "nnoF = (oF + 2) mod n"
    and ix: "pF = place s oF (n - 1)" "fF = place s oF 0" "nF = place s oF 1"
      "nnF = place s oF 2" "nnnF = place s oF 3"
    and ok: "refs_ok s"
    and sz: "length (faces s ! fF) + 4 \<in> {4, 5, 6}"
      "length (faces s ! nF) + 1 \<in> {4, 5, 6}"
  shows "switch_ok s s1 te \<and> w = [] \<and> length (faces s1 ! fF) \<in> {4, 5, 6}
    \<and> numverts s1 = numverts s + 1 \<and> length (edges s1) = length (edges s) + 3
    \<and> length (faces s1) = length (faces s)
    \<and> length te = 1
    \<and> length (openfaces s1) = n - 3"
proof -
  from run[unfolded addEdges_8_def Let_def]
  obtain e sb sc x sd e2 se sf sg sh si s1' w' where
    b: "push_back fF (length (edges (emplace_edge endptF e s)) - 1) (emplace_edge endptF e s) = Some sb"
    and c: "push_back nF (length (edges sb) - 1) sb = Some sc"
    and d: "push_back fF x sc = Some sd"
    and e: "push_back fF (length (edges (emplace_edge (numverts (incr_numverts sd)) e2 (incr_numverts sd))) - 1)
              (emplace_edge (numverts (incr_numverts sd)) e2 (incr_numverts sd)) = Some se"
    and f: "push_front nnnF (length (edges se) - 1) se = Some sf"
    and g: "push_back fF (length (edges (emplace_edge startF (numverts sf) sf)) - 1)
              (emplace_edge startF (numverts sf) sf) = Some sg"
    and h: "push_back pF (length (edges sg) - 1) sg = Some sh"
    and i: "(if nnoF > oF then erase_range oF (oF + 3) sh
            else if noF > oF then do { s \<leftarrow> erase_range oF (oF + 2) sh; erase_at nnoF s }
            else do { s \<leftarrow> erase_at oF sh; erase_range noF (noF + 2) s }) = Some si"
    and j: "countFace_at v nF si = Some (s1', w')"
    and k: "Some (s1', [nnF], w') = Some (s1, te, w)"
    by (elim bind_pairE bindE)
  from k have tw: "s1' = s1" "te = [nnF]" "w' = w" by simp_all
  have n4: "3 \<le> n" using n(3) by auto
  have ne: "openfaces s \<noteq> []" using n by auto
  have inj: "place s oF k = place s oF k' \<longleftrightarrow> k = k'" if "k < n" "k' < n" for k k'
    using place_inj[OF ok, of oF k k'] n that by simp
  have fn: "fF \<noteq> nF" "fF \<noteq> nnF" "fF \<noteq> nnnF" "fF \<noteq> pF" "nF \<noteq> nnF" "nF \<noteq> nnnF"
    "nF \<noteq> pF" "nnF \<noteq> nnnF" "nnF \<noteq> pF" "nnnF \<noteq> pF"
    using n(3) ix inj[of 0 1] inj[of 0 2] inj[of 0 3] inj[of 0 "n - 1"]
      inj[of 1 2] inj[of 1 3] inj[of 1 "n - 1"] inj[of 2 3] inj[of 2 "n - 1"] inj[of 3 "n - 1"]
    by simp_all
  have mem: "fF \<in> set (openfaces s)" "nF \<in> set (openfaces s)" "pF \<in> set (openfaces s)"
    "nnF \<in> set (openfaces s)" "nnnF \<in> set (openfaces s)"
    using place_mem[OF ne] ix by simp_all
  note B = push_back_D[OF b] and C = push_back_D[OF c] and D = push_back_D[OF d]
    and E = push_back_D[OF e] and F = push_front_D[OF f] and G = push_back_D[OF g]
    and H = push_back_D[OF h] and J = countFace_at_D[OF j[unfolded tw]]
  have og: "openfaces sh = openfaces s" by (simp add: H G F E D C B)
  from erase_seq_8[OF _ _ _ _ i] n n4 pos og
  have I': "si = sh\<lparr>openfaces := cyc_remove (openfaces s) oF 3\<rparr>" by simp
  then have I: "faces si = faces sh" "openfaces si = cyc_remove (openfaces s) oF 3"
    "edges si = edges sh" "numverts si = numverts sh" by simp_all
  have rem: "set (cyc_remove (openfaces s) oF 3) = set (openfaces s) - {fF, nF, nnF}"
    using set_cyc_remove_place[OF ok, of oF 3 0] n n4 ix
    by (simp add: image_lessThan_3)
  have dis: "distinct (cyc_remove (openfaces s) oF 3)"
    using ok n n4 by (simp add: distinct_cyc_remove refs_ok_def)
  have len: "length (cyc_remove (openfaces s) oF 3) = n - 3"
    using n n4 by (simp add: length_cyc_remove)
  have lF: "length (faces s1 ! fF) = length (faces s ! fF) + 4"
    using fn by (simp add: J I H G F E D C B)
  have lN: "length (faces s1 ! nF) = length (faces s ! nF) + 1"
    using fn by (simp add: J I H G F E D C B)
  have lens: "length (faces s1) = length (faces s)"
    by (simp add: J I H G F E D C B)
  have cnt: "length (edges s1) = length (edges s) + 3" "numverts s1 = numverts s + 1"
    by (simp_all add: J I H G F E D C B incr_numverts_def)
  have o1: "openfaces s1 = cyc_remove (openfaces s) oF 3" by (simp add: J I)
  have w: "w = []"
    using J(7) lN sz(2) J(1) by simp
  have keep: "faces s1 ! i = faces s ! i" if "i \<notin> set (openfaces s)" for i
  proof -
    from that mem have "i \<noteq> fF" "i \<noteq> pF" "i \<noteq> nF" "i \<noteq> nnnF" by auto
    then show ?thesis by (simp add: J I H G F E D C B)
  qed
  have 3: "switch_ok s s1 te"
  proof (rule switch_okI[OF ok, where R="{fF, nF, nnF}"])
    show "distinct (openfaces s1)" using dis o1 by simp
    show "length (faces s) \<le> length (faces s1)" by (simp add: lens)
    show "set (openfaces s1) = set (openfaces s) - {fF, nF, nnF} \<union> {length (faces s)..<length (faces s1)}"
      using rem o1 lens by simp
    show "{fF, nF, nnF} \<subseteq> set (openfaces s)" using mem by simp
    show "faces s1 ! i = faces s ! i" if "i \<notin> set (openfaces s)" for i
      using keep[OF that] .
    show "distinct te" "set te \<subseteq> {fF, nF, nnF}" using tw fn by simp_all
    show "length (faces s1 ! i) \<in> {4, 5, 6}" if "i \<in> {fF, nF, nnF}" "i \<notin> set te" for i
      using that tw lF lN sz by auto
  qed
  have "length (faces s1 ! fF) \<in> {4, 5, 6}" using lF sz(1) by simp
  with 3 w tw cnt lens len o1 show ?thesis by simp
qed

lemma addEdges_9_effect:
  assumes run: "addEdges_9 v oF ppoF poF pppF ppF pF fF nF startF endptF s = Some (s1, te, w)"
    and n: "n = length (openfaces s)" "oF < n" "5 \<le> n"
    and pos: "ppoF = (oF + (n - 2)) mod n" "poF = (oF + (n - 1)) mod n"
    and ix: "pppF = place s oF (n - 3)" "ppF = place s oF (n - 2)" "pF = place s oF (n - 1)"
      "fF = place s oF 0" "nF = place s oF 1"
    and ok: "refs_ok s"
    and sz: "length (faces s ! fF) + 4 \<in> {4, 5, 6}"
      "length (faces s ! pF) + 1 \<in> {4, 5, 6}"
  shows "switch_ok s s1 te \<and> w = [] \<and> length (faces s1 ! fF) \<in> {4, 5, 6}
    \<and> numverts s1 = numverts s + 1 \<and> length (edges s1) = length (edges s) + 3
    \<and> length (faces s1) = length (faces s)
    \<and> length te = 1
    \<and> length (openfaces s1) = n - 3"
proof -
  from run[unfolded addEdges_9_def Let_def]
  obtain e sb sc x sd e2 se sf sg sh si s1' w' where
    b: "push_back fF (length (edges (emplace_edge e startF s)) - 1) (emplace_edge e startF s) = Some sb"
    and c: "push_back pF (length (edges sb) - 1) sb = Some sc"
    and d: "push_back fF x sc = Some sd"
    and e: "push_back fF (length (edges (emplace_edge e2 (numverts (incr_numverts sd)) (incr_numverts sd))) - 1)
              (emplace_edge e2 (numverts (incr_numverts sd)) (incr_numverts sd)) = Some se"
    and f: "push_back pppF (length (edges se) - 1) se = Some sf"
    and g: "push_back fF (length (edges (emplace_edge (numverts sf) endptF sf)) - 1)
              (emplace_edge (numverts sf) endptF sf) = Some sg"
    and h: "push_front nF (length (edges sg) - 1) sg = Some sh"
    and i: "(if ppoF < oF then erase_range ppoF (oF + 1) sh
            else if poF < oF then do { s \<leftarrow> erase_at ppoF sh; erase_range poF (oF + 1) s }
            else do { s \<leftarrow> erase_range ppoF (poF + 1) sh; erase_at oF s }) = Some si"
    and j: "countFace_at v pF si = Some (s1', w')"
    and k: "Some (s1', [ppF], w') = Some (s1, te, w)"
    by (elim bind_pairE bindE)
  from k have tw: "s1' = s1" "te = [ppF]" "w' = w" by simp_all
  have n4: "3 \<le> n" using n(3) by auto
  have ne: "openfaces s \<noteq> []" using n by auto
  have inj: "place s oF k = place s oF k' \<longleftrightarrow> k = k'" if "k < n" "k' < n" for k k'
    using place_inj[OF ok, of oF k k'] n that by simp
  have fn: "fF \<noteq> nF" "fF \<noteq> pF" "fF \<noteq> ppF" "fF \<noteq> pppF" "pF \<noteq> ppF" "pF \<noteq> pppF"
    "pF \<noteq> nF" "ppF \<noteq> pppF" "ppF \<noteq> nF" "pppF \<noteq> nF"
    using n(3) ix inj[of 0 1] inj[of 0 "n - 1"] inj[of 0 "n - 2"] inj[of 0 "n - 3"]
      inj[of "n - 1" "n - 2"] inj[of "n - 1" "n - 3"] inj[of "n - 1" 1]
      inj[of "n - 2" "n - 3"] inj[of "n - 2" 1] inj[of "n - 3" 1]
    by simp_all
  have mem: "fF \<in> set (openfaces s)" "nF \<in> set (openfaces s)" "pF \<in> set (openfaces s)"
    "ppF \<in> set (openfaces s)" "pppF \<in> set (openfaces s)"
    using place_mem[OF ne] ix by simp_all
  note B = push_back_D[OF b] and C = push_back_D[OF c] and D = push_back_D[OF d]
    and E = push_back_D[OF e] and F = push_back_D[OF f] and G = push_back_D[OF g]
    and H = push_front_D[OF h] and J = countFace_at_D[OF j[unfolded tw]]
  have og: "openfaces sh = openfaces s" by (simp add: H G F E D C B)
  from erase_seq_9[OF _ _ _ _ i] n n4 pos og
  have I': "si = sh\<lparr>openfaces := cyc_remove (openfaces s) ppoF 3\<rparr>" by simp
  then have I: "faces si = faces sh" "openfaces si = cyc_remove (openfaces s) ppoF 3"
    "edges si = edges sh" "numverts si = numverts sh" by simp_all
  have e1: "n - 2 + 0 = n - 2" "n - 2 + 1 = n - 1" "n - 2 + 2 = n"
    using n(3) by simp_all
  have pl: "place s oF n = fF"
    using ix n(1) place_n[of s oF] by simp
  have A: "set (cyc_remove (openfaces s) ((oF + (n - 2)) mod length (openfaces s)) 3)
      = set (openfaces s) - (\<lambda>j. place s oF (n - 2 + j)) ` {..<3}"
    by (rule set_cyc_remove_place[OF ok]) (use n n4 in simp_all)
  have Bq: "(\<lambda>j. place s oF (n - 2 + j)) ` {..<3} = {ppF, pF, fF}"
    unfolding image_lessThan_3 e1 pl ix(2,3) ..
  have rem: "set (cyc_remove (openfaces s) ppoF 3) = set (openfaces s) - {ppF, pF, fF}"
    unfolding pos(1) using A[unfolded Bq] n(1) by simp
  have plt: "ppoF < n" using pos(1) ne n(1) by simp
  have dis: "distinct (cyc_remove (openfaces s) ppoF 3)"
    using ok n n4 plt by (simp add: distinct_cyc_remove refs_ok_def)
  have len: "length (cyc_remove (openfaces s) ppoF 3) = n - 3"
    using n n4 plt by (simp add: length_cyc_remove)
  have lF: "length (faces s1 ! fF) = length (faces s ! fF) + 4"
    using fn by (simp add: J I H G F E D C B)
  have lP: "length (faces s1 ! pF) = length (faces s ! pF) + 1"
    using fn by (simp add: J I H G F E D C B)
  have lens: "length (faces s1) = length (faces s)"
    by (simp add: J I H G F E D C B)
  have cnt: "length (edges s1) = length (edges s) + 3" "numverts s1 = numverts s + 1"
    by (simp_all add: J I H G F E D C B incr_numverts_def)
  have o1: "openfaces s1 = cyc_remove (openfaces s) ppoF 3" by (simp add: J I)
  have w: "w = []"
    using J(7) lP sz(2) J(1) by simp
  have keep: "faces s1 ! i = faces s ! i" if "i \<notin> set (openfaces s)" for i
  proof -
    from that mem have "i \<noteq> fF" "i \<noteq> pF" "i \<noteq> nF" "i \<noteq> pppF" by auto
    then show ?thesis by (simp add: J I H G F E D C B)
  qed
  have 3: "switch_ok s s1 te"
  proof (rule switch_okI[OF ok, where R="{ppF, pF, fF}"])
    show "distinct (openfaces s1)" using dis o1 by simp
    show "length (faces s) \<le> length (faces s1)" by (simp add: lens)
    show "set (openfaces s1) = set (openfaces s) - {ppF, pF, fF} \<union> {length (faces s)..<length (faces s1)}"
      using rem o1 lens by simp
    show "{ppF, pF, fF} \<subseteq> set (openfaces s)" using mem by simp
    show "faces s1 ! i = faces s ! i" if "i \<notin> set (openfaces s)" for i
      using keep[OF that] .
    show "distinct te" "set te \<subseteq> {ppF, pF, fF}" using tw fn by simp_all
    show "length (faces s1 ! i) \<in> {4, 5, 6}" if "i \<in> {ppF, pF, fF}" "i \<notin> set te" for i
      using that tw lF lP sz by auto
  qed
  have "length (faces s1 ! fF) \<in> {4, 5, 6}" using lF sz(1) by simp
  with 3 w tw cnt lens len o1 show ?thesis by simp
qed

subsection \<open>What a legal move says about the sizes\<close>

lemma add_True:
  "add c sz = (True, c') \<Longrightarrow> ntri c = 1 \<Longrightarrow> sz \<in> {4, 5, 6} \<and> ntri c' = 1"
  by (auto simp: add_def N_TRI_def split: if_splits)

lemma add_fst: "fst (add c sz) \<Longrightarrow> ntri c = 1 \<Longrightarrow> sz \<in> {4, 5, 6}"
  by (auto simp: add_def N_TRI_def split: if_splits)

lemma cyc_next:
  assumes "0 < n"
  shows "cyc oF 1 n = Some ((oF + 1) mod n)" "cyc oF 2 n = Some ((oF + 2) mod n)"
    "cyc oF 3 n = Some ((oF + 3) mod n)"
  using cyc_nat[OF assms, of oF 1] cyc_nat[OF assms, of oF 2] cyc_nat[OF assms, of oF 3]
  by simp_all

lemma idx_place:
  "openfaces s \<noteq> [] \<Longrightarrow>
   idx (openfaces s) ((oF + k) mod length (openfaces s)) = Some (place s oF k)"
  by (simp add: idx_def place_def)

lemma openface_place:
  assumes "refs_ok s" "openfaces s \<noteq> []"
  shows "openface s ((oF + k) mod length (openfaces s)) = Some (faces s ! place s oF k)"
  using assms place_lt[OF assms, of oF k]
  by (simp add: openface_def idx_place) (simp add: idx_def)

lemma isValid_SomeD:
  assumes "isValid v s oF m = Some b" "refs_ok s"
    and "2 \<le> length (openfaces s)" "oF < length (openfaces s)"
  shows "b = isValid_switch m (length (openfaces s))
               \<lparr>ntri = 1, nsq_c = nsq s, npent_c = npent s\<rparr>
               (faces s ! place s oF (2 * length (openfaces s) - 3))
               (faces s ! place s oF (length (openfaces s) - 2))
               (faces s ! place s oF (length (openfaces s) - 1))
               (faces s ! place s oF 0) (faces s ! place s oF 1)
               (faces s ! place s oF 2) (faces s ! place s oF 3)"
proof -
  let ?n = "length (openfaces s)"
  have ne: "openfaces s \<noteq> []" and pos: "0 < ?n" using assms(3) by auto
  have o0: "openface s oF = Some (faces s ! place s oF 0)"
    using openface_place[OF assms(2) ne, of oF 0] assms(4) by simp
  note o = openface_place[OF assms(2) ne, of oF]
  from assms(1) have "do {
      assert v (length (faces s ! place s oF 0) > 1);
      Some (isValid_switch m ?n \<lparr>ntri = 1, nsq_c = nsq s, npent_c = npent s\<rparr>
               (faces s ! place s oF (2 * ?n - 3)) (faces s ! place s oF (?n - 2))
               (faces s ! place s oF (?n - 1)) (faces s ! place s oF 0) (faces s ! place s oF 1)
               (faces s ! place s oF 2) (faces s ! place s oF 3)) } = Some b"
    unfolding isValid_def Let_def cyc_prev[OF assms(3)] cyc_next[OF pos] Option.bind.simps o o0 .
  then show ?thesis by (auto split: Option.bind_splits)
qed

lemma valid_1:
  assumes "isValid_switch 1 n fc ppp pp p F nx nn nnn" "ntri fc = 1"
  shows "length F + 1 \<in> {4, 5, 6}" "n = 2 \<longrightarrow> length nx + 1 \<in> {4, 5, 6}"
  using assms
  by (auto simp: isValid_switch_def split: if_splits prod.splits dest: add_True add_fst)

lemma valid_2:
  assumes "isValid_switch 2 n fc ppp pp p F nx nn nnn" "ntri fc = 1"
  shows "length F + 2 \<in> {4, 5, 6}"
  using assms by (auto simp: isValid_switch_def split: if_splits dest: add_fst)

lemma valid_5:
  assumes "isValid_switch 5 n fc ppp pp p F nx nn nnn" "ntri fc = 1"
  shows "length F + 3 \<in> {4, 5, 6}"
  using assms by (auto simp: isValid_switch_def split: if_splits dest: add_fst)

lemma valid_10:
  assumes "isValid_switch 10 n fc ppp pp p F nx nn nnn" "ntri fc = 1"
  shows "length F + 4 \<in> {4, 5, 6}"
  using assms by (auto simp: isValid_switch_def split: if_splits dest: add_fst)

lemma valid_3:
  assumes "isValid_switch 3 n fc ppp pp p F nx nn nnn" "ntri fc = 1"
  shows "n = 4 \<or> 6 \<le> n" "length F + length nn + 2 \<in> {4, 5, 6}"
    "length nx + 1 \<in> {4, 5, 6}" "n = 4 \<longrightarrow> length p + 1 \<in> {4, 5, 6}"
proof -
  from assms(1) have n: "\<not> (n < 4 \<or> n = 5)" and nn: "length nn = 1"
    by (auto simp: isValid_switch_def split: if_splits)
  obtain r1 c1 where a1: "add fc (length nx + 1) = (r1, c1)" by (cases "add fc (length nx + 1)")
  with assms(1) n nn have r1: "r1" by (auto simp: isValid_switch_def split: if_splits)
  from add_True[OF a1[unfolded eqTrueI[OF r1]] assms(2)]
  have s1: "length nx + 1 \<in> {4, 5, 6}" and t1: "ntri c1 = 1" by simp_all
  obtain r2 c2 where a2: "(if n = 4 then add c1 (length p + 1) else (True, c1)) = (r2, c2)"
    by (cases "if n = 4 then add c1 (length p + 1) else (True, c1)")
  with assms(1) n nn a1 r1 have r2: "r2" and f: "fst (add c2 (length F + 3))"
    by (auto simp: isValid_switch_def split: if_splits)
  have s2: "n = 4 \<longrightarrow> length p + 1 \<in> {4, 5, 6}" and t2: "ntri c2 = 1"
    using a2 r2 t1 add_True[of c1 "length p + 1" c2] by (auto split: if_splits)
  from add_fst[OF f t2] nn have "length F + length nn + 2 \<in> {4, 5, 6}" by simp
  with n s1 s2 show "n = 4 \<or> 6 \<le> n" "length F + length nn + 2 \<in> {4, 5, 6}"
    "length nx + 1 \<in> {4, 5, 6}" "n = 4 \<longrightarrow> length p + 1 \<in> {4, 5, 6}"
    by auto
qed

lemma valid_6:
  assumes "isValid_switch 6 n fc ppp pp p F nx nn nnn" "ntri fc = 1"
  shows "n = 4 \<or> 6 \<le> n" "length F + length nn + 2 \<in> {4, 5, 6}"
    "length nx + 1 \<in> {4, 5, 6}" "n = 4 \<longrightarrow> length p + 1 \<in> {4, 5, 6}"
proof -
  from assms(1) have n: "\<not> (n < 4 \<or> n = 5)" and nn: "length nn = 2"
    by (auto simp: isValid_switch_def split: if_splits)
  obtain r1 c1 where a1: "add fc (length nx + 1) = (r1, c1)" by (cases "add fc (length nx + 1)")
  with assms(1) n nn have r1: "r1" by (auto simp: isValid_switch_def split: if_splits)
  from add_True[OF a1[unfolded eqTrueI[OF r1]] assms(2)]
  have s1: "length nx + 1 \<in> {4, 5, 6}" and t1: "ntri c1 = 1" by simp_all
  obtain r2 c2 where a2: "(if n = 4 then add c1 (length p + 1) else (True, c1)) = (r2, c2)"
    by (cases "if n = 4 then add c1 (length p + 1) else (True, c1)")
  with assms(1) n nn a1 r1 have r2: "r2" and f: "fst (add c2 (length F + 4))"
    by (auto simp: isValid_switch_def split: if_splits)
  have s2: "n = 4 \<longrightarrow> length p + 1 \<in> {4, 5, 6}" and t2: "ntri c2 = 1"
    using a2 r2 t1 add_True[of c1 "length p + 1" c2] by (auto split: if_splits)
  from add_fst[OF f t2] nn have "length F + length nn + 2 \<in> {4, 5, 6}" by simp
  with n s1 s2 show "n = 4 \<or> 6 \<le> n" "length F + length nn + 2 \<in> {4, 5, 6}"
    "length nx + 1 \<in> {4, 5, 6}" "n = 4 \<longrightarrow> length p + 1 \<in> {4, 5, 6}"
    by auto
qed

lemma valid_4:
  assumes "isValid_switch 4 n fc ppp pp p F nx nn nnn" "ntri fc = 1"
  shows "6 \<le> n" "length F + length pp + 2 \<in> {4, 5, 6}" "length p + 1 \<in> {4, 5, 6}"
proof -
  from assms(1) have n: "\<not> n < 6" and nn: "length pp = 1"
    by (auto simp: isValid_switch_def split: if_splits)
  obtain r1 c1 where a1: "add fc (length p + 1) = (r1, c1)" by (cases "add fc (length p + 1)")
  with assms(1) n nn have r1: "r1" by (auto simp: isValid_switch_def split: if_splits)
  from add_True[OF a1[unfolded eqTrueI[OF r1]] assms(2)]
  have s1: "length p + 1 \<in> {4, 5, 6}" and t1: "ntri c1 = 1" by simp_all
  from assms(1) n nn a1 r1 have f: "fst (add c1 (length F + 3))"
    by (auto simp: isValid_switch_def split: if_splits)
  from add_fst[OF f t1] nn have "length F + length pp + 2 \<in> {4, 5, 6}" by simp
  with n s1 show "6 \<le> n" "length F + length pp + 2 \<in> {4, 5, 6}" "length p + 1 \<in> {4, 5, 6}"
    by auto
qed

lemma valid_7:
  assumes "isValid_switch 7 n fc ppp pp p F nx nn nnn" "ntri fc = 1"
  shows "6 \<le> n" "length F + length pp + 2 \<in> {4, 5, 6}" "length p + 1 \<in> {4, 5, 6}"
proof -
  from assms(1) have n: "\<not> n < 6" and nn: "length pp = 2"
    by (auto simp: isValid_switch_def split: if_splits)
  obtain r1 c1 where a1: "add fc (length p + 1) = (r1, c1)" by (cases "add fc (length p + 1)")
  with assms(1) n nn have r1: "r1" by (auto simp: isValid_switch_def split: if_splits)
  from add_True[OF a1[unfolded eqTrueI[OF r1]] assms(2)]
  have s1: "length p + 1 \<in> {4, 5, 6}" and t1: "ntri c1 = 1" by simp_all
  from assms(1) n nn a1 r1 have f: "fst (add c1 (length F + 4))"
    by (auto simp: isValid_switch_def split: if_splits)
  from add_fst[OF f t1] nn have "length F + length pp + 2 \<in> {4, 5, 6}" by simp
  with n s1 show "6 \<le> n" "length F + length pp + 2 \<in> {4, 5, 6}" "length p + 1 \<in> {4, 5, 6}"
    by auto
qed

lemma valid_8:
  assumes "isValid_switch 8 n fc ppp pp p F nx nn nnn" "ntri fc = 1"
  shows "5 \<le> n" "length F + 4 \<in> {4, 5, 6}" "length nx + 1 \<in> {4, 5, 6}"
proof -
  from assms(1) have n: "\<not> n < 5" and g: "length nn = 1" "\<not> length p > 4" "\<not> length nnn > 4"
    by (auto simp: isValid_switch_def split: if_splits)
  obtain r1 c1 where a1: "add fc (length nx + 1) = (r1, c1)" by (cases "add fc (length nx + 1)")
  with assms(1) n g have r1: "r1" and f: "fst (add c1 (length F + 4))"
    by (auto simp: isValid_switch_def split: if_splits)
  from add_True[OF a1[unfolded eqTrueI[OF r1]] assms(2)]
  have s1: "length nx + 1 \<in> {4, 5, 6}" and t1: "ntri c1 = 1" by simp_all
  from add_fst[OF f t1] n s1
  show "5 \<le> n" "length F + 4 \<in> {4, 5, 6}" "length nx + 1 \<in> {4, 5, 6}" by auto
qed

lemma valid_9:
  assumes "isValid_switch 9 n fc ppp pp p F nx nn nnn" "ntri fc = 1"
  shows "5 \<le> n" "length F + 4 \<in> {4, 5, 6}" "length p + 1 \<in> {4, 5, 6}"
proof -
  from assms(1) have n: "\<not> n < 5" and g: "length pp = 1" "\<not> length nx > 4" "\<not> length ppp > 4"
    by (auto simp: isValid_switch_def split: if_splits)
  obtain r1 c1 where a1: "add fc (length p + 1) = (r1, c1)" by (cases "add fc (length p + 1)")
  with assms(1) n g have r1: "r1" and f: "fst (add c1 (length F + 4))"
    by (auto simp: isValid_switch_def split: if_splits)
  from add_True[OF a1[unfolded eqTrueI[OF r1]] assms(2)]
  have s1: "length p + 1 \<in> {4, 5, 6}" and t1: "ntri c1 = 1" by simp_all
  from add_fst[OF f t1] n s1
  show "5 \<le> n" "length F + 4 \<in> {4, 5, 6}" "length p + 1 \<in> {4, 5, 6}" by auto
qed

lemma valid_range:
  "isValid_switch m n fc ppp pp p F nx nn nnn \<Longrightarrow>
   m = 1 \<or> m = 2 \<or> m = 3 \<or> m = 4 \<or> m = 5 \<or> m = 6 \<or> m = 7 \<or> m = 8 \<or> m = 9 \<or> m = 10"
  unfolding isValid_switch_def by (auto split: if_splits)

section \<open>A legal move keeps the state well formed\<close>

lemma erase_loop_zero:
  assumes "erase_loop efs s = Some s'" "0 \<notin> set efs" "0 \<notin> set (openfaces s)"
    and "0 < length (faces s)"
  shows "0 \<notin> set (openfaces s') \<and> 0 < length (faces s') \<and> faces s' ! 0 = faces s ! 0"
  using assms
proof (induction efs arbitrary: s)
  case Nil
  then show ?case by simp
next
  case (Cons ef efs)
  define dec where "dec = (\<lambda>opf. if opf > ef then opf - 1 else opf)"
  define t where "t = s\<lparr>openfaces := map dec (openfaces s),
              faces := take ef (faces s) @ drop (Suc ef) (faces s)\<rparr>"
  from Cons.prems(1) have ef: "ef < length (faces s)" and rest: "erase_loop efs t = Some s'"
    by (auto simp: Let_def t_def dec_def split: if_splits)
  from Cons.prems(2) have e0: "0 < ef" "0 \<notin> set efs" by auto
  have "dec f \<noteq> 0" if "f \<in> set (openfaces s)" for f
  proof -
    from that Cons.prems(3) have "f \<noteq> 0" by metis
    with e0 show ?thesis unfolding dec_def by auto
  qed
  then have a: "0 \<notin> set (openfaces t)" unfolding t_def by (simp add: image_iff)
  have b: "0 < length (faces t)" using ef e0 by (simp add: t_def)
  have c: "faces t ! 0 = faces s ! 0" using ef e0 by (simp add: t_def nth_append)
  from Cons.IH[OF rest e0(2) a b] c show ?case by simp
qed

lemma finish_inv:
  assumes sw: "switch_ok s s1 te" and ok: "refs_ok s"
    and cf: "countFace_at v fF s1 = Some (s2, w2)"
    and lf: "length (faces s1 ! fF) \<in> {4, 5, 6}"
    and er: "erase_loop (rev (sort te)) s2 = Some s'"
  shows "refs_ok s' \<and> w2 = [] \<and> numverts s' = numverts s1 \<and> edges s' = edges s1
     \<and> length (faces s') + length te = length (faces s1)
     \<and> length (openfaces s') = length (openfaces s1)
     \<and> (tri_ok s \<longrightarrow> tri_ok s')"
proof -
  note C = countFace_at_D[OF cf]
  from sw have d1: "distinct (openfaces s1)" and le: "length (faces s) \<le> length (faces s1)"
    and sub: "set (openfaces s1) \<subseteq> set (openfaces s) \<union> {length (faces s)..<length (faces s1)}"
    and new: "{length (faces s)..<length (faces s1)} \<subseteq> set (openfaces s1)"
    and old: "\<And>i. i < length (faces s) \<Longrightarrow> i \<notin> set (openfaces s) \<Longrightarrow> faces s1 ! i = faces s ! i"
    and dte: "distinct te" and ste: "set te \<subseteq> set (openfaces s) - set (openfaces s1)"
    and cl: "\<And>i. i \<in> set (openfaces s) \<Longrightarrow> i \<notin> set (openfaces s1) \<Longrightarrow> i \<notin> set te
               \<Longrightarrow> length (faces s1 ! i) \<in> {4, 5, 6}"
    unfolding switch_ok_def by auto
  from ok have r: "\<And>f. f \<in> set (openfaces s) \<Longrightarrow> f < length (faces s)"
    by (auto simp: refs_ok_def)
  have ok2: "refs_ok s2"
    unfolding refs_ok_def C(1,2) using d1 sub r le by fastforce
  have dj: "set te \<inter> set (openfaces s2) = {}" unfolding C(2) using ste by auto
  note E = erase_loop_sorted[OF er dte ok2 dj]
  have w2: "w2 = []" using C(7) lf by simp
  have tri: "tri_ok s'" if t: "tri_ok s"
  proof -
    from t have p: "0 < length (faces s)" and z: "0 \<notin> set (openfaces s)"
      and l0: "length (faces s ! 0) = 3"
      and cls: "\<And>i. 0 < i \<Longrightarrow> i < length (faces s) \<Longrightarrow> i \<notin> set (openfaces s)
                 \<Longrightarrow> length (faces s ! i) \<in> {4, 5, 6}"
      unfolding tri_ok_def by auto
    have z2: "0 \<notin> set (openfaces s2)" unfolding C(2) using sub z p by auto
    have zt: "0 \<notin> set (rev (sort te))" using ste z by auto
    have p2: "0 < length (faces s2)" unfolding C(1) using p le by (rule less_le_trans)
    from erase_loop_zero[OF er zt z2 p2]
    have Z: "0 \<notin> set (openfaces s')" "0 < length (faces s')" "faces s' ! 0 = faces s2 ! 0"
      by simp_all
    have f0: "length (faces s' ! 0) = 3" using Z(3) C(1) old[OF p z] l0 by simp
    have rest: "length (faces s' ! i') \<in> {4, 5, 6}"
      if i': "0 < i'" "i' < length (faces s')" "i' \<notin> set (openfaces s')" for i'
    proof -
      from E i' zt obtain i where i: "i < length (faces s2)" "i \<notin> set (openfaces s2)"
        "i \<notin> set te" "faces s' ! i' = faces s2 ! i" "i' = 0 \<longleftrightarrow> i = 0"
        by (metis set_rev set_sort)
      from i(1,2) new have il: "i < length (faces s)" unfolding C(1,2)
        by (metis atLeastLessThan_iff not_le_imp_less subsetD)
      from i(5) i'(1) have ip: "0 < i" by simp
      show ?thesis
      proof (cases "i \<in> set (openfaces s)")
        case True
        from cl[OF True] i(2,3) show ?thesis unfolding i(4) C(1,2) by simp
      next
        case False
        from cls[OF ip il False] old[OF il False] show ?thesis unfolding i(4) C(1) by simp
      qed
    qed
    show ?thesis unfolding tri_ok_def using Z f0 rest by auto
  qed
  from E w2 tri C show ?thesis by simp
qed

lemma bind_tripleE:
  assumes "x \<bind> (\<lambda>(a, b, c). f a b c) = Some y"
  obtains a b c where "x = Some (a, b, c)" "f a b c = Some y"
  using assms by (cases x) auto

lemma place_ppp:
  "3 \<le> length (openfaces s) \<Longrightarrow>
   place s oF (2 * length (openfaces s) - 3) = place s oF (length (openfaces s) - 3)"
  unfolding place_def using ppp_mod[of "length (openfaces s)" oF] by simp

lemma addEdges_unfold:
  assumes run: "addEdges v s oF m = Some (s', w)"
    and n: "n = length (openfaces s)" "2 \<le> n" "oF < n"
  obtains startF endptF s1 te w1 s2 w2 where
    "(if m = 1 then addEdges_1 v n oF ((oF + 1) mod n) (place s oF (n - 1)) (place s oF 0)
                      (place s oF 1) startF endptF s
      else if m = 2 then addEdges_2 oF (place s oF (n - 1)) (place s oF 0) (place s oF 1)
                      startF endptF s
      else if m = 3 \<or> m = 6 then
        addEdges_3_6 v m n oF ((oF + 1) mod n) ((oF + 2) mod n) ((oF + 3) mod n)
          (place s oF (n - 1)) (place s oF 0) (place s oF 1) (place s oF 2) (place s oF 3)
          startF endptF s
      else if m = 4 \<or> m = 7 then
        addEdges_4_7 v m n oF ((oF + (n - 2)) mod n) ((oF + (n - 1)) mod n) ((oF + 1) mod n)
          (place s oF (2 * n - 3)) (place s oF (n - 2)) (place s oF (n - 1)) (place s oF 0)
          (place s oF 1) startF endptF s
      else if m = 5 then addEdges_5 oF (place s oF (n - 1)) (place s oF 0) (place s oF 1)
                      startF endptF s
      else if m = 8 then
        addEdges_8 v oF ((oF + 1) mod n) ((oF + 2) mod n) (place s oF (n - 1)) (place s oF 0)
          (place s oF 1) (place s oF 2) (place s oF 3) startF endptF s
      else if m = 9 then
        addEdges_9 v oF ((oF + (n - 2)) mod n) ((oF + (n - 1)) mod n)
          (place s oF (2 * n - 3)) (place s oF (n - 2)) (place s oF (n - 1)) (place s oF 0)
          (place s oF 1) startF endptF s
      else if m = 10 then addEdges_10 oF (place s oF (n - 1)) (place s oF 0) (place s oF 1)
                      startF endptF s
      else do { assert v False; Some (s, [], []) }) = Some (s1, te, w1)"
    "countFace_at v (place s oF 0) s1 = Some (s2, w2)"
    "erase_loop (rev (sort te)) s2 = Some s'" "w = w1 @ w2"
proof -
  have ne: "openfaces s \<noteq> []" and pos: "0 < length (openfaces s)" using n by auto
  have i0: "idx (openfaces s) oF = Some (place s oF 0)"
    using n by (simp add: idx_def place_def)
  note i = idx_place[OF ne, of oF]
  let ?n = "length (openfaces s)"
  from run[unfolded addEdges_def Let_def cyc_prev[OF n(2)[unfolded n(1)]] cyc_next[OF pos]
      Option.bind.simps i i0]
  obtain startF endptF s1 te w1 s2 w2 s3 where
    sw: "(if m = 1 then addEdges_1 v ?n oF ((oF + 1) mod ?n) (place s oF (?n - 1)) (place s oF 0)
                      (place s oF 1) startF endptF s
      else if m = 2 then addEdges_2 oF (place s oF (?n - 1)) (place s oF 0) (place s oF 1)
                      startF endptF s
      else if m = 3 \<or> m = 6 then
        addEdges_3_6 v m ?n oF ((oF + 1) mod ?n) ((oF + 2) mod ?n) ((oF + 3) mod ?n)
          (place s oF (?n - 1)) (place s oF 0) (place s oF 1) (place s oF 2) (place s oF 3)
          startF endptF s
      else if m = 4 \<or> m = 7 then
        addEdges_4_7 v m ?n oF ((oF + (?n - 2)) mod ?n) ((oF + (?n - 1)) mod ?n) ((oF + 1) mod ?n)
          (place s oF (2 * ?n - 3)) (place s oF (?n - 2)) (place s oF (?n - 1)) (place s oF 0)
          (place s oF 1) startF endptF s
      else if m = 5 then addEdges_5 oF (place s oF (?n - 1)) (place s oF 0) (place s oF 1)
                      startF endptF s
      else if m = 8 then
        addEdges_8 v oF ((oF + 1) mod ?n) ((oF + 2) mod ?n) (place s oF (?n - 1)) (place s oF 0)
          (place s oF 1) (place s oF 2) (place s oF 3) startF endptF s
      else if m = 9 then
        addEdges_9 v oF ((oF + (?n - 2)) mod ?n) ((oF + (?n - 1)) mod ?n)
          (place s oF (2 * ?n - 3)) (place s oF (?n - 2)) (place s oF (?n - 1)) (place s oF 0)
          (place s oF 1) startF endptF s
      else if m = 10 then addEdges_10 oF (place s oF (?n - 1)) (place s oF 0) (place s oF 1)
                      startF endptF s
      else do { assert v False; Some (s, [], []) }) = Some (s1, te, w1)"
    and cf: "countFace_at v (place s oF 0) s1 = Some (s2, w2)"
    and er: "erase_loop (rev (sort te)) s2 = Some s3"
    and fin: "Some (s3, w1 @ w2) = Some (s', w)"
    by (elim bind_tripleE bind_pairE bindE)
  from fin have "s3 = s'" "w = w1 @ w2" by simp_all
  with sw cf er show ?thesis by (intro that[unfolded n(1)]) simp_all
qed

lemma effect_okI:
  assumes "switch_ok s s1 te \<and> w = [] \<and> length (faces s1 ! fF) \<in> {4, 5, 6}"
    and num: "numverts s1 = numverts s + int dV" "length (edges s1) = length (edges s) + dE"
      "length (faces s1) = length (faces s) + dF" "length te = k" "length (openfaces s1) = n1"
    and "N = length (openfaces s)" "0 < N"
    and "if n1 = 0
         then dV + 2 * k + 2 = N + 2 * dF \<and> dE + 3 * k + 3 = 2 * N + 3 * dF
         else dV + 2 * k + n1 = N + 2 * dF \<and> dE + 3 * k + 2 * n1 = 2 * N + 3 * dF"
  shows "effect_ok s s1 te w fF"
proof -
  from num have e: "numverts s1 = numverts s + int dV"
    "int (length (edges s1)) = int (length (edges s)) + int dE"
    "int (length (faces s1)) = int (length (faces s)) + int dF"
    "int (length te) = int k" "length (openfaces s1) = n1"
    by simp_all
  have "euler_rel (numverts s1) (int (length (edges s1)))
            (int (length (faces s1)) - int (length te)) (int (length (openfaces s1)))"
    if "euler_ok s"
  proof -
    from assms(7,8) have "int (length (openfaces s)) \<noteq> 0" by linarith
    with that
    have a: "numverts s - 2 * int (length (faces s)) + int N = - 2"
      "int (length (edges s)) - 3 * int (length (faces s)) + 2 * int N = - 3"
      unfolding euler_ok_def euler_rel_def assms(7) by simp_all
    show ?thesis
    proof (cases "n1 = 0")
      case True
      with assms(9) have "dV + 2 * k + 2 = N + 2 * dF" "dE + 3 * k + 3 = 2 * N + 3 * dF"
        by simp_all
      then have b: "int dV + 2 * int k + 2 = int N + 2 * int dF"
        "int dE + 3 * int k + 3 = 2 * int N + 3 * int dF" by linarith+
      have "numverts s + int dV - 2 * (int (length (faces s)) + int dF - int k) = - 4"
        "int (length (edges s)) + int dE - 3 * (int (length (faces s)) + int dF - int k) = - 6"
        using a(1) b(1) apply (simp add: algebra_simps)
        using a(2) b(2) apply (simp add: algebra_simps)
        done
      then show ?thesis unfolding euler_rel_def e using True by simp
    next
      case False
      with assms(9) have "dV + 2 * k + n1 = N + 2 * dF" "dE + 3 * k + 2 * n1 = 2 * N + 3 * dF"
        by simp_all
      then have b: "int dV + 2 * int k + int n1 = int N + 2 * int dF"
        "int dE + 3 * int k + 2 * int n1 = 2 * int N + 3 * int dF" by linarith+
      have "numverts s + int dV - 2 * (int (length (faces s)) + int dF - int k) + int n1 = - 2"
        "int (length (edges s)) + int dE - 3 * (int (length (faces s)) + int dF - int k)
           + 2 * int n1 = - 3"
        using a(1) b(1) apply (simp add: algebra_simps)
        using a(2) b(2) apply (simp add: algebra_simps)
        done
      then show ?thesis unfolding euler_rel_def e using False by simp
    qed
  qed
  with assms(1) show ?thesis unfolding effect_ok_def by simp
qed

lemma addEdges_inv:
  assumes run: "addEdges v s oF m = Some (s', w)"
    and val: "isValid v s oF m = Some True"
    and ok: "refs_ok s" and n2: "2 \<le> length (openfaces s)" and oFn: "oF < length (openfaces s)"
  shows "refs_ok s' \<and> w = [] \<and> (tri_ok s \<longrightarrow> tri_ok s') \<and> (euler_ok s \<longrightarrow> euler_ok s')"
proof -
  define n where "n = length (openfaces s)"
  have n: "n = length (openfaces s)" "2 \<le> n" "oF < n" using n2 oFn by (simp_all add: n_def)
  have pos: "0 < length (openfaces s)" using n2 by linarith
  have npos: "0 < n" using n(2) by linarith
  define fc where "fc = \<lparr>ntri = 1, nsq_c = nsq s, npent_c = npent s\<rparr>"
  have fc: "ntri fc = 1" by (simp add: fc_def)
  from isValid_SomeD[OF val ok n2 oFn]
  have V: "isValid_switch m n fc
               (faces s ! place s oF (2 * n - 3)) (faces s ! place s oF (n - 2))
               (faces s ! place s oF (n - 1)) (faces s ! place s oF 0) (faces s ! place s oF 1)
               (faces s ! place s oF 2) (faces s ! place s oF 3)"
    unfolding n_def fc_def by simp
  obtain startF endptF s1 te w1 s2 w2 where
    sw: "(if m = 1 then addEdges_1 v n oF ((oF + 1) mod n) (place s oF (n - 1)) (place s oF 0)
                      (place s oF 1) startF endptF s
      else if m = 2 then addEdges_2 oF (place s oF (n - 1)) (place s oF 0) (place s oF 1)
                      startF endptF s
      else if m = 3 \<or> m = 6 then
        addEdges_3_6 v m n oF ((oF + 1) mod n) ((oF + 2) mod n) ((oF + 3) mod n)
          (place s oF (n - 1)) (place s oF 0) (place s oF 1) (place s oF 2) (place s oF 3)
          startF endptF s
      else if m = 4 \<or> m = 7 then
        addEdges_4_7 v m n oF ((oF + (n - 2)) mod n) ((oF + (n - 1)) mod n) ((oF + 1) mod n)
          (place s oF (2 * n - 3)) (place s oF (n - 2)) (place s oF (n - 1)) (place s oF 0)
          (place s oF 1) startF endptF s
      else if m = 5 then addEdges_5 oF (place s oF (n - 1)) (place s oF 0) (place s oF 1)
                      startF endptF s
      else if m = 8 then
        addEdges_8 v oF ((oF + 1) mod n) ((oF + 2) mod n) (place s oF (n - 1)) (place s oF 0)
          (place s oF 1) (place s oF 2) (place s oF 3) startF endptF s
      else if m = 9 then
        addEdges_9 v oF ((oF + (n - 2)) mod n) ((oF + (n - 1)) mod n)
          (place s oF (2 * n - 3)) (place s oF (n - 2)) (place s oF (n - 1)) (place s oF 0)
          (place s oF 1) startF endptF s
      else if m = 10 then addEdges_10 oF (place s oF (n - 1)) (place s oF 0) (place s oF 1)
                      startF endptF s
      else do { assert v False; Some (s, [], []) }) = Some (s1, te, w1)"
    and cf: "countFace_at v (place s oF 0) s1 = Some (s2, w2)"
    and er: "erase_loop (rev (sort te)) s2 = Some s'" and w: "w = w1 @ w2"
    by (rule addEdges_unfold[OF run n])
  have ppp: "3 \<le> n \<Longrightarrow> place s oF (2 * n - 3) = place s oF (n - 3)"
    unfolding n_def by (rule place_ppp)
  from valid_range[OF V]
  consider "m = 1" | "m = 2" | "m = 3" | "m = 4" | "m = 5" | "m = 6" | "m = 7" | "m = 8"
    | "m = 9" | "m = 10" by blast
  then have eff: "effect_ok s s1 te w1 (place s oF 0)"
  proof cases
    case 1
    with sw have r: "addEdges_1 v n oF ((oF + 1) mod n) (place s oF (n - 1)) (place s oF 0)
                      (place s oF 1) startF endptF s = Some (s1, te, w1)" by simp
    note z = valid_1[OF V[unfolded 1] fc]
    note EF = addEdges_1_effect[OF r n refl refl refl refl ok z]
    from EF have a: "switch_ok s s1 te \<and> w1 = [] \<and> length (faces s1 ! place s oF 0) \<in> {4, 5, 6}"
      by blast
    from EF have b: "numverts s1 = numverts s + int 0" "length (edges s1) = length (edges s) + 1"
      "length (faces s1) = length (faces s) + 0" "length te = (if n = 2 then 0 else 1)"
      "length (openfaces s1) = n - 2" by simp_all
    have c: "if n - 2 = 0
         then 0 + 2 * (if n = 2 then 0 else 1) + 2 = n + 2 * 0 \<and> 1 + 3 * (if n = 2 then 0 else 1) + 3 = 2 * n + 3 * 0
         else 0 + 2 * (if n = 2 then 0 else 1) + (n - 2) = n + 2 * 0 \<and> 1 + 3 * (if n = 2 then 0 else 1) + 2 * (n - 2) = 2 * n + 3 * 0"
      using n(2) by (cases "n = 2"; cases "n = 4"; simp; linarith)
    show ?thesis by (rule effect_okI[OF a b n(1) npos c])
  next
    case 2
    with sw have r: "addEdges_2 oF (place s oF (n - 1)) (place s oF 0) (place s oF 1)
                      startF endptF s = Some (s1, te, w1)" by simp
    note z = valid_2[OF V[unfolded 2] fc]
    note EF = addEdges_2_effect[OF r n refl refl refl ok z]
    from EF have a: "switch_ok s s1 te \<and> w1 = [] \<and> length (faces s1 ! place s oF 0) \<in> {4, 5, 6}"
      by blast
    from EF have b: "numverts s1 = numverts s + int 1" "length (edges s1) = length (edges s) + 2"
      "length (faces s1) = length (faces s) + 0" "length te = 0"
      "length (openfaces s1) = n - 1" by simp_all
    have c: "if n - 1 = 0
         then 1 + 2 * 0 + 2 = n + 2 * 0 \<and> 2 + 3 * 0 + 3 = 2 * n + 3 * 0
         else 1 + 2 * 0 + (n - 1) = n + 2 * 0 \<and> 2 + 3 * 0 + 2 * (n - 1) = 2 * n + 3 * 0"
      using n(2) by (cases "n = 2"; cases "n = 4"; simp; linarith)
    show ?thesis by (rule effect_okI[OF a b n(1) npos c])
  next
    case 3
    with sw have r: "addEdges_3_6 v m n oF ((oF + 1) mod n) ((oF + 2) mod n) ((oF + 3) mod n)
          (place s oF (n - 1)) (place s oF 0) (place s oF 1) (place s oF 2) (place s oF 3)
          startF endptF s = Some (s1, te, w1)" by simp
    note z = valid_3[OF V[unfolded 3] fc]
    note EF = addEdges_3_6_effect[OF r n(1,3) z(1) refl refl refl refl refl refl refl refl ok z(2-)]
    from EF have a: "switch_ok s s1 te \<and> w1 = [] \<and> length (faces s1 ! place s oF 0) \<in> {4, 5, 6}"
      by blast
    from EF have b: "numverts s1 = numverts s + int 0" "length (edges s1) = length (edges s) + 2"
      "length (faces s1) = length (faces s) + 0" "length te = (if n = 4 then 1 else 2)"
      "length (openfaces s1) = n - 4" by simp_all
    have c: "if n - 4 = 0
         then 0 + 2 * (if n = 4 then 1 else 2) + 2 = n + 2 * 0 \<and> 2 + 3 * (if n = 4 then 1 else 2) + 3 = 2 * n + 3 * 0
         else 0 + 2 * (if n = 4 then 1 else 2) + (n - 4) = n + 2 * 0 \<and> 2 + 3 * (if n = 4 then 1 else 2) + 2 * (n - 4) = 2 * n + 3 * 0"
      using n(2) z(1) by (cases "n = 2"; cases "n = 4"; simp; linarith)
    show ?thesis by (rule effect_okI[OF a b n(1) npos c])
  next
    case 6
    with sw have r: "addEdges_3_6 v m n oF ((oF + 1) mod n) ((oF + 2) mod n) ((oF + 3) mod n)
          (place s oF (n - 1)) (place s oF 0) (place s oF 1) (place s oF 2) (place s oF 3)
          startF endptF s = Some (s1, te, w1)" by simp
    note z = valid_6[OF V[unfolded 6] fc]
    note EF = addEdges_3_6_effect[OF r n(1,3) z(1) refl refl refl refl refl refl refl refl ok z(2-)]
    from EF have a: "switch_ok s s1 te \<and> w1 = [] \<and> length (faces s1 ! place s oF 0) \<in> {4, 5, 6}"
      by blast
    from EF have b: "numverts s1 = numverts s + int 0" "length (edges s1) = length (edges s) + 2"
      "length (faces s1) = length (faces s) + 0" "length te = (if n = 4 then 1 else 2)"
      "length (openfaces s1) = n - 4" by simp_all
    have c: "if n - 4 = 0
         then 0 + 2 * (if n = 4 then 1 else 2) + 2 = n + 2 * 0 \<and> 2 + 3 * (if n = 4 then 1 else 2) + 3 = 2 * n + 3 * 0
         else 0 + 2 * (if n = 4 then 1 else 2) + (n - 4) = n + 2 * 0 \<and> 2 + 3 * (if n = 4 then 1 else 2) + 2 * (n - 4) = 2 * n + 3 * 0"
      using n(2) z(1) by (cases "n = 2"; cases "n = 4"; simp; linarith)
    show ?thesis by (rule effect_okI[OF a b n(1) npos c])
  next
    case 4
    with sw have r: "addEdges_4_7 v m n oF ((oF + (n - 2)) mod n) ((oF + (n - 1)) mod n)
          ((oF + 1) mod n)
          (place s oF (2 * n - 3)) (place s oF (n - 2)) (place s oF (n - 1)) (place s oF 0)
          (place s oF 1) startF endptF s = Some (s1, te, w1)" by simp
    note z = valid_4[OF V[unfolded 4] fc]
    have p3: "place s oF (2 * n - 3) = place s oF (n - 3)" using ppp z(1) by simp
    note EF = addEdges_4_7_effect[OF r n(1,3) z(1) refl refl refl p3 refl refl refl refl ok z(2-)]
    from EF have a: "switch_ok s s1 te \<and> w1 = [] \<and> length (faces s1 ! place s oF 0) \<in> {4, 5, 6}"
      by blast
    from EF have b: "numverts s1 = numverts s + int 0" "length (edges s1) = length (edges s) + 2"
      "length (faces s1) = length (faces s) + 0" "length te = 2"
      "length (openfaces s1) = n - 4" by simp_all
    have c: "if n - 4 = 0
         then 0 + 2 * 2 + 2 = n + 2 * 0 \<and> 2 + 3 * 2 + 3 = 2 * n + 3 * 0
         else 0 + 2 * 2 + (n - 4) = n + 2 * 0 \<and> 2 + 3 * 2 + 2 * (n - 4) = 2 * n + 3 * 0"
      using n(2) z(1) by (cases "n = 2"; cases "n = 4"; simp; linarith)
    show ?thesis by (rule effect_okI[OF a b n(1) npos c])
  next
    case 7
    with sw have r: "addEdges_4_7 v m n oF ((oF + (n - 2)) mod n) ((oF + (n - 1)) mod n)
          ((oF + 1) mod n)
          (place s oF (2 * n - 3)) (place s oF (n - 2)) (place s oF (n - 1)) (place s oF 0)
          (place s oF 1) startF endptF s = Some (s1, te, w1)" by simp
    note z = valid_7[OF V[unfolded 7] fc]
    have p3: "place s oF (2 * n - 3) = place s oF (n - 3)" using ppp z(1) by simp
    note EF = addEdges_4_7_effect[OF r n(1,3) z(1) refl refl refl p3 refl refl refl refl ok z(2-)]
    from EF have a: "switch_ok s s1 te \<and> w1 = [] \<and> length (faces s1 ! place s oF 0) \<in> {4, 5, 6}"
      by blast
    from EF have b: "numverts s1 = numverts s + int 0" "length (edges s1) = length (edges s) + 2"
      "length (faces s1) = length (faces s) + 0" "length te = 2"
      "length (openfaces s1) = n - 4" by simp_all
    have c: "if n - 4 = 0
         then 0 + 2 * 2 + 2 = n + 2 * 0 \<and> 2 + 3 * 2 + 3 = 2 * n + 3 * 0
         else 0 + 2 * 2 + (n - 4) = n + 2 * 0 \<and> 2 + 3 * 2 + 2 * (n - 4) = 2 * n + 3 * 0"
      using n(2) z(1) by (cases "n = 2"; cases "n = 4"; simp; linarith)
    show ?thesis by (rule effect_okI[OF a b n(1) npos c])
  next
    case 5
    with sw have r: "addEdges_5 oF (place s oF (n - 1)) (place s oF 0) (place s oF 1)
                      startF endptF s = Some (s1, te, w1)" by simp
    note z = valid_5[OF V[unfolded 5] fc]
    note EF = addEdges_5_effect[OF r n refl refl refl ok z]
    from EF have a: "switch_ok s s1 te \<and> w1 = [] \<and> length (faces s1 ! place s oF 0) \<in> {4, 5, 6}"
      by blast
    from EF have b: "numverts s1 = numverts s + int 2" "length (edges s1) = length (edges s) + 3"
      "length (faces s1) = length (faces s) + 1" "length te = 0"
      "length (openfaces s1) = n" by simp_all
    have c: "if n = 0
         then 2 + 2 * 0 + 2 = n + 2 * 1 \<and> 3 + 3 * 0 + 3 = 2 * n + 3 * 1
         else 2 + 2 * 0 + (n) = n + 2 * 1 \<and> 3 + 3 * 0 + 2 * (n) = 2 * n + 3 * 1"
      using n(2) by (cases "n = 2"; cases "n = 4"; simp; linarith)
    show ?thesis by (rule effect_okI[OF a b n(1) npos c])
  next
    case 10
    with sw have r: "addEdges_10 oF (place s oF (n - 1)) (place s oF 0) (place s oF 1)
                      startF endptF s = Some (s1, te, w1)" by simp
    note z = valid_10[OF V[unfolded 10] fc]
    note EF = addEdges_10_effect[OF r n refl refl refl ok z]
    from EF have a: "switch_ok s s1 te \<and> w1 = [] \<and> length (faces s1 ! place s oF 0) \<in> {4, 5, 6}"
      by blast
    from EF have b: "numverts s1 = numverts s + int 3" "length (edges s1) = length (edges s) + 4"
      "length (faces s1) = length (faces s) + 2" "length te = 0"
      "length (openfaces s1) = n + 1" by simp_all
    have c: "if n + 1 = 0
         then 3 + 2 * 0 + 2 = n + 2 * 2 \<and> 4 + 3 * 0 + 3 = 2 * n + 3 * 2
         else 3 + 2 * 0 + (n + 1) = n + 2 * 2 \<and> 4 + 3 * 0 + 2 * (n + 1) = 2 * n + 3 * 2"
      using n(2) by (cases "n = 2"; cases "n = 4"; simp; linarith)
    show ?thesis by (rule effect_okI[OF a b n(1) npos c])
  next
    case 8
    with sw have r: "addEdges_8 v oF ((oF + 1) mod n) ((oF + 2) mod n) (place s oF (n - 1))
          (place s oF 0) (place s oF 1) (place s oF 2) (place s oF 3) startF endptF s = Some (s1, te, w1)" by simp
    note z = valid_8[OF V[unfolded 8] fc]
    note EF = addEdges_8_effect[OF r n(1,3) z(1) refl refl refl refl refl refl refl ok z(2-)]
    from EF have a: "switch_ok s s1 te \<and> w1 = [] \<and> length (faces s1 ! place s oF 0) \<in> {4, 5, 6}"
      by blast
    from EF have b: "numverts s1 = numverts s + int 1" "length (edges s1) = length (edges s) + 3"
      "length (faces s1) = length (faces s) + 0" "length te = 1"
      "length (openfaces s1) = n - 3" by simp_all
    have c: "if n - 3 = 0
         then 1 + 2 * 1 + 2 = n + 2 * 0 \<and> 3 + 3 * 1 + 3 = 2 * n + 3 * 0
         else 1 + 2 * 1 + (n - 3) = n + 2 * 0 \<and> 3 + 3 * 1 + 2 * (n - 3) = 2 * n + 3 * 0"
      using n(2) z(1) by (cases "n = 2"; cases "n = 4"; simp; linarith)
    show ?thesis by (rule effect_okI[OF a b n(1) npos c])
  next
    case 9
    with sw have r: "addEdges_9 v oF ((oF + (n - 2)) mod n) ((oF + (n - 1)) mod n)
          (place s oF (2 * n - 3)) (place s oF (n - 2)) (place s oF (n - 1)) (place s oF 0)
          (place s oF 1) startF endptF s = Some (s1, te, w1)" by simp
    note z = valid_9[OF V[unfolded 9] fc]
    have p3: "place s oF (2 * n - 3) = place s oF (n - 3)" using ppp z(1) by simp
    note EF = addEdges_9_effect[OF r n(1,3) z(1) refl refl p3 refl refl refl refl ok z(2-)]
    from EF have a: "switch_ok s s1 te \<and> w1 = [] \<and> length (faces s1 ! place s oF 0) \<in> {4, 5, 6}"
      by blast
    from EF have b: "numverts s1 = numverts s + int 1" "length (edges s1) = length (edges s) + 3"
      "length (faces s1) = length (faces s) + 0" "length te = 1"
      "length (openfaces s1) = n - 3" by simp_all
    have c: "if n - 3 = 0
         then 1 + 2 * 1 + 2 = n + 2 * 0 \<and> 3 + 3 * 1 + 3 = 2 * n + 3 * 0
         else 1 + 2 * 1 + (n - 3) = n + 2 * 0 \<and> 3 + 3 * 1 + 2 * (n - 3) = 2 * n + 3 * 0"
      using n(2) z(1) by (cases "n = 2"; cases "n = 4"; simp; linarith)
    show ?thesis by (rule effect_okI[OF a b n(1) npos c])
  qed
  from eff have sw': "switch_ok s s1 te" and w1: "w1 = []"
    and lf: "length (faces s1 ! place s oF 0) \<in> {4, 5, 6}"
    and eu: "euler_ok s \<Longrightarrow> euler_rel (numverts s1) (int (length (edges s1)))
            (int (length (faces s1)) - int (length te)) (int (length (openfaces s1)))"
    unfolding effect_ok_def by simp_all
  from finish_inv[OF sw' ok cf lf er]
  have F: "refs_ok s'" "w2 = []" "numverts s' = numverts s1" "edges s' = edges s1"
    "length (faces s') + length te = length (faces s1)"
    "length (openfaces s') = length (openfaces s1)" "tri_ok s \<longrightarrow> tri_ok s'"
    by simp_all
  have "int (length (faces s')) = int (length (faces s1)) - int (length te)"
    using F(5) by simp
  with eu F(3,4,6) have "euler_ok s \<longrightarrow> euler_ok s'" unfolding euler_ok_def by simp
  with F w w1 show ?thesis by simp
qed

section \<open>The invariant of the search\<close>

lemma st_inv_medgadd [simp]: "st_inv (s\<lparr>medgadd := k\<rparr>) = st_inv s"
  by (simp add: st_inv_def refs_ok_def tri_ok_def euler_ok_def)

lemma st_inv_chosenFace [simp]: "st_inv (s\<lparr>chosenFace := k\<rparr>) = st_inv s"
  by (simp add: st_inv_def refs_ok_def tri_ok_def euler_ok_def)

lemma head_ok_medgadd [simp]: "head_ok (s\<lparr>medgadd := k\<rparr>) = head_ok s"
  by (simp add: head_ok_def)

lemma st_inv_init: "st_inv GraphState_init"
proof -
  have "refs_ok GraphState_init" by (simp add: refs_ok_def GraphState_init_def)
  moreover have "tri_ok GraphState_init"
  proof -
    have "i = 1" if "0 < i" "i < 7" "i \<notin> {2, 3, 4, 5, 6}" for i :: nat
      using that by auto
    then show ?thesis by (auto simp: tri_ok_def GraphState_init_def)
  qed
  moreover have "euler_ok GraphState_init"
    by (simp add: euler_ok_def euler_rel_def GraphState_init_def)
  ultimately show ?thesis by (simp add: st_inv_def)
qed

lemma cfg_inv_init: "cfg_inv (main_init ns)"
  using st_inv_init
  by (simp add: cfg_inv_def mid_inv_def head_ok_def quiet_def main_init_def GraphState_init_def)

lemma incMethod_result:
  "incMethod v s = Some (found, g) \<Longrightarrow>
     g = s\<lparr>medgadd := medgadd g\<rparr>
     \<and> (found \<longrightarrow> medgadd s < medgadd g \<and> medgadd g \<le> NUM_METH
           \<and> isValid v s (chosenFace s) (medgadd g) = Some True)
     \<and> (\<not> found \<longrightarrow> NUM_METH < medgadd g)"
proof (induction v s rule: incMethod.induct)
  case (1 v s)
  let ?s1 = "s\<lparr>medgadd := medgadd s + 1\<rparr>"
  let ?V = "\<lambda>m. isValid v s (chosenFace s) m"
  show ?case
  proof (cases "medgadd s \<le> NUM_METH")
    case False
    with "1.prems" have "found = False" "g = s" by simp_all
    with False show ?thesis by simp
  next
    case le: True
    show ?thesis
    proof (cases "?V (medgadd s + 1)")
      case None
      with le "1.prems" show ?thesis by simp
    next
      case (Some b)
      show ?thesis
      proof (cases b)
        case True
        with Some le "1.prems" have "found" "g = ?s1" by simp_all
        moreover have "medgadd s + 1 \<le> NUM_METH"
          using isValid_beyond[of "medgadd s + 1" v s "chosenFace s"] Some True
          by (cases "medgadd s + 1 \<le> NUM_METH") simp_all
        ultimately show ?thesis using Some True by simp
      next
        case False
        with Some le "1.prems" have r: "incMethod v ?s1 = Some (found, g)"
          by (simp add: incMethod.simps[of v s] del: incMethod.simps)
        from "1.IH"[OF le refl _ _ r] Some False
        have ih: "g = ?s1\<lparr>medgadd := medgadd g\<rparr>
          \<and> (found \<longrightarrow> medgadd ?s1 < medgadd g \<and> medgadd g \<le> NUM_METH
           \<and> isValid v ?s1 (chosenFace ?s1) (medgadd g) = Some True)
          \<and> (\<not> found \<longrightarrow> NUM_METH < medgadd g)" by simp
        then show ?thesis by auto
      qed
    qed
  qed
qed

lemma chooseFace_result:
  assumes "chooseFace s = Some g" "refs_ok s" "openfaces s \<noteq> []"
  shows "g = s\<lparr>chosenFace := chosenFace g, medgadd := 0\<rparr> \<and> chosenFace g < length (openfaces s)"
proof -
  have refs: "\<forall>k<length (openfaces s). openfaces s ! k < length (faces s)"
    using assms(2) by (auto simp: refs_ok_def)
  have "1 \<le> length (openfaces s)" using assms(3) by (cases "openfaces s") auto
  from chooseFace_loop_upt[OF refs _ this, of 0]
  obtain c where "chooseFace_loop s [1..<length (openfaces s)] 0 = Some c" "c < length (openfaces s)"
    by auto
  with assms(1) show ?thesis by (auto simp: chooseFace_def)
qed

lemma main_restore_inv:
  assumes "main_restore c = Continue c1" "cfg_inv c"
  shows "mid_inv c1 \<and> head_ok (G c1) \<and> \<not> pop c1"
proof (cases "pop c")
  case False
  with assms show ?thesis by (auto simp: main_restore_def cfg_inv_def)
next
  case True
  with assms(1) have ne: "graphStack c \<noteq> []"
    and c1: "c1 = c\<lparr>G := last (graphStack c), graphStack := butlast (graphStack c), pop := False\<rparr>"
    by (auto simp: main_restore_def split: if_splits)
  from assms(2) have a: "\<forall>g\<in>set (graphStack c). head_ok g" "quiet (cerr c)"
    by (auto simp: cfg_inv_def mid_inv_def)
  from ne a(1) have h: "head_ok (last (graphStack c))" by simp
  have "\<forall>g\<in>set (butlast (graphStack c)). head_ok g" using a(1) by (auto dest: in_set_butlastD)
  with h a(2) show ?thesis unfolding c1 by (simp add: mid_inv_def head_ok_def)
qed

lemma main_try_inv:
  assumes "main_try v c1 = Some (c2, applied)" "mid_inv c1" "head_ok (G c1)"
  shows "mid_inv c2 \<and> (\<not> applied \<longrightarrow> pop c2)"
proof -
  from assms(1) obtain found g where im: "incMethod v (G c1) = Some (found, g)"
    by (auto simp: main_try_def split: Option.bind_splits)
  note R = incMethod_result[OF im]
  from R have g: "g = (G c1)\<lparr>medgadd := medgadd g\<rparr>" by simp
  have hg: "head_ok g" by (subst g) (simp add: assms(3))
  show ?thesis
  proof (cases found)
    case False
    with assms(1) im have "c2 = c1\<lparr>G := g, pop := True\<rparr>" "\<not> applied"
      by (auto simp: main_try_def)
    with assms(2) hg show ?thesis by (simp add: mid_inv_def head_ok_def)
  next
    case True
    with assms(1) im obtain g' w where
      ae: "addEdges v g (chosenFace g) (medgadd g) = Some (g', w)"
      and c2: "c2 = c1\<lparr>G := g', graphStack := graphStack c1 @ [g], cerr := cerr c1 @ w\<rparr>"
      and ap: "applied"
      by (auto simp: main_try_def Let_def split: Option.bind_splits)
    from R True have "isValid v (G c1) (chosenFace (G c1)) (medgadd g) = Some True" by simp
    then have val: "isValid v g (chosenFace g) (medgadd g) = Some True"
      by (subst g, subst (2) g) simp
    from hg have ok: "refs_ok g" "tri_ok g" "euler_ok g" and n: "2 \<le> length (openfaces g)"
      "chosenFace g < length (openfaces g)" by (simp_all add: head_ok_def st_inv_def)
    from addEdges_inv[OF ae val ok(1) n] ok
    have "st_inv g'" "w = []" by (simp_all add: st_inv_def)
    with assms(2) hg ap show ?thesis unfolding c2 by (simp add: mid_inv_def)
  qed
qed

lemma main_open_inv:
  assumes "main_open v M c = Some c'" "mid_inv c" "openfaces (G c) \<noteq> []"
  shows "cfg_inv c'"
proof -
  from assms(2) have st: "st_inv (G c)" by (simp add: mid_inv_def)
  consider (p) "c' = c\<lparr>pop := True\<rparr>"
    | (ch) g where "length (openfaces (G c)) \<noteq> 1" "chooseFace (G c) = Some g" "c' = c\<lparr>G := g\<rparr>"
    using assms(1) by (auto simp: main_open_def split: if_splits Option.bind_splits)
  then show ?thesis
  proof cases
    case p
    with assms(2) show ?thesis by (simp add: cfg_inv_def mid_inv_def)
  next
    case ch
    from st have r: "refs_ok (G c)" by (simp add: st_inv_def)
    from chooseFace_result[OF ch(2) r assms(3)]
    have g: "g = (G c)\<lparr>chosenFace := chosenFace g, medgadd := 0\<rparr>"
      and lt: "chosenFace g < length (openfaces (G c))" by simp_all
    have "length (openfaces (G c)) \<noteq> 0" using assms(3) by simp
    with ch(1) have n: "2 \<le> length (openfaces (G c))" by linarith
    have og: "openfaces g = openfaces (G c)" by (subst g) simp
    have "st_inv g" by (subst g) (simp add: st)
    with n lt og have "head_ok g" by (simp add: head_ok_def)
    with assms(2) show ?thesis unfolding ch(3) by (simp add: cfg_inv_def mid_inv_def head_ok_def)
  qed
qed

lemma canongraph_quiet:
  "canongraph v nauty s = Some (canon, w) \<Longrightarrow> quiet (err @ w) = quiet err"
  by (auto simp: canongraph_def quiet_def Let_def split: Option.bind_splits if_splits)

lemma main_after_fast_closed:
  assumes "main_after_fast nauty M c = Some c'" "openfaces (G c) = []"
  shows "G c' = G c \<and> graphStack c' = graphStack c \<and> pop c'
     \<and> (quiet (cerr c) \<longrightarrow> quiet (cerr c'))"
proof -
  from assms obtain fin c3 where
    a: "(if fin \<and> int (length (faces (G c))) \<le> as_size_t M then do {
                 (canon, w) \<leftarrow> canongraph Fast nauty (G c);
                 let c = c\<lparr>cerr := cerr c @ w\<rparr>;
                 if canon \<notin> canonslns c then do {
                   ns \<leftarrow> incr_at (nsuccess c) (nhex (G c));
                   Some (c\<lparr>canonslns := insert canon (canonslns c), nsuccess := ns\<rparr>)
                 } else Some c
               } else Some c) = Some c3"
    and c': "c' = c3\<lparr>pop := True\<rparr>"
    by (auto simp: main_after_fast_def split: Option.bind_splits)
  have "G c3 = G c \<and> graphStack c3 = graphStack c \<and> (quiet (cerr c) \<longrightarrow> quiet (cerr c3))"
  proof (cases "fin \<and> int (length (faces (G c))) \<le> as_size_t M")
    case False
    with a show ?thesis by auto
  next
    case True
    with a obtain canon w where cg: "canongraph Fast nauty (G c) = Some (canon, w)"
      and "G c3 = G c" "graphStack c3 = graphStack c" "cerr c3 = cerr c @ w"
      by (auto simp: Let_def split: Option.bind_splits if_splits)
    with canongraph_quiet[OF cg] show ?thesis by simp
  qed
  with c' show ?thesis by simp
qed

lemma main_after_fast_inv:
  assumes "main_after_fast nauty M c = Some c'" "mid_inv c"
  shows "cfg_inv c'"
proof (cases "openfaces (G c) = []")
  case True
  from main_after_fast_closed[OF assms(1) True] assms(2)
  show ?thesis by (simp add: cfg_inv_def mid_inv_def)
next
  case False
  with assms(1) have "main_open Fast M c = Some c'" by (simp add: main_after_fast_def)
  from main_open_inv[OF this assms(2) False] show ?thesis .
qed

lemma main_after_planar_closed:
  assumes "(let c = c\<lparr>pop := True\<rparr> in
        if int (length (faces (G c))) > as_size_t M then Some c
        else do {
          fin \<leftarrow> sizefinal Planar (G c);
          if fin then do {
            (canon, w) \<leftarrow> canongraph Planar nauty (G c);
            let c = c\<lparr>cerr := cerr c @ w\<rparr>;
            if canon \<notin> canonslns c then do {
              let c = c\<lparr>canonslns := insert canon (canonslns c), nsuccess := nsuccess c + 1\<rparr>;
              print_graph (G c);
              Some c
            } else Some c
          } else Some c
        }) = Some c'"
  shows "G c' = G c \<and> graphStack c' = graphStack c \<and> pop c'
     \<and> (quiet (cerr c) \<longrightarrow> quiet (cerr c'))"
  using assms
  by (auto simp: Let_def canongraph_quiet split: Option.bind_splits if_splits)

lemma main_after_planar_inv:
  assumes "main_after_planar nauty M c = Some c'" "mid_inv c"
  shows "cfg_inv c'"
proof -
  from assms(1) obtain sp where sp: "symmetry_prune (G c) = Some sp"
    by (auto simp: main_after_planar_def split: Option.bind_splits)
  show ?thesis
  proof (cases sp)
    case True
    with assms(1) sp have "c' = c\<lparr>pop := True\<rparr>" by (simp add: main_after_planar_def)
    with assms(2) show ?thesis by (simp add: cfg_inv_def mid_inv_def)
  next
    case nsp: False
    show ?thesis
    proof (cases "openfaces (G c) = []")
      case True
      with assms(1) sp nsp
      have "(let c = c\<lparr>pop := True\<rparr> in
        if int (length (faces (G c))) > as_size_t M then Some c
        else do {
          fin \<leftarrow> sizefinal Planar (G c);
          if fin then do {
            (canon, w) \<leftarrow> canongraph Planar nauty (G c);
            let c = c\<lparr>cerr := cerr c @ w\<rparr>;
            if canon \<notin> canonslns c then do {
              let c = c\<lparr>canonslns := insert canon (canonslns c), nsuccess := nsuccess c + 1\<rparr>;
              print_graph (G c);
              Some c
            } else Some c
          } else Some c
        }) = Some c'" by (simp add: main_after_planar_def)
      from main_after_planar_closed[OF this] assms(2)
      show ?thesis by (simp add: cfg_inv_def mid_inv_def)
    next
      case False
      with assms(1) sp nsp have "main_open Planar M c = Some c'"
        by (simp add: main_after_planar_def)
      from main_open_inv[OF this assms(2) False] show ?thesis .
    qed
  qed
qed

lemma main_iter_fast_inv:
  assumes "main_iter_fast nauty M c = Some (Continue c')" "cfg_inv c"
  shows "cfg_inv c'"
proof -
  from assms(1) obtain c1 c2 applied where r: "main_restore c = Continue c1"
    and t: "main_try Fast c1 = Some (c2, applied)"
    and a: "if applied then main_after_fast nauty M c2 = Some c' else c' = c2"
    by (auto simp: main_iter_fast_def split: flow.splits Option.bind_splits if_splits)
  from main_restore_inv[OF r assms(2)] have 1: "mid_inv c1" "head_ok (G c1)" by simp_all
  from main_try_inv[OF t 1] have 2: "mid_inv c2" "\<not> applied \<longrightarrow> pop c2" by simp_all
  show ?thesis
  proof (cases applied)
    case True
    with a have "main_after_fast nauty M c2 = Some c'" by simp
    from main_after_fast_inv[OF this 2(1)] show ?thesis .
  next
    case False
    with a 2 show ?thesis by (simp add: cfg_inv_def)
  qed
qed

lemma main_iter_planar_inv:
  assumes "main_iter_planar nauty M c = Some (Continue c')" "cfg_inv c"
  shows "cfg_inv c'"
proof -
  from assms(1) obtain c1 c2 applied where r: "main_restore c = Continue c1"
    and t: "main_try Planar c1 = Some (c2, applied)"
    and a: "if applied then main_after_planar nauty M c2 = Some c' else c' = c2"
    by (auto simp: main_iter_planar_def split: flow.splits Option.bind_splits if_splits)
  from main_restore_inv[OF r assms(2)] have 1: "mid_inv c1" "head_ok (G c1)" by simp_all
  from main_try_inv[OF t 1] have 2: "mid_inv c2" "\<not> applied \<longrightarrow> pop c2" by simp_all
  show ?thesis
  proof (cases applied)
    case True
    with a have "main_after_planar nauty M c2 = Some c'" by simp
    from main_after_planar_inv[OF this 2(1)] show ?thesis .
  next
    case False
    with a 2 show ?thesis by (simp add: cfg_inv_def)
  qed
qed

lemma reaches_invariant:
  assumes "reaches step c0 c" "I c0"
    and "\<And>c c'. step c = Some (Continue c') \<Longrightarrow> I c \<Longrightarrow> I c'"
  shows "I c"
  using assms(1,2) by (induction rule: reaches.induct) (auto intro: assms(3))

lemma reaches_fast_inv:
  "reaches (main_iter_fast nauty M) (main_init ns) c \<Longrightarrow> cfg_inv c"
  by (erule reaches_invariant[where I=cfg_inv]) (auto intro: cfg_inv_init main_iter_fast_inv)

lemma reaches_planar_inv:
  "reaches (main_iter_planar nauty M) (main_init k) c \<Longrightarrow> cfg_inv c"
  by (erule reaches_invariant[where I=cfg_inv]) (auto intro: cfg_inv_init main_iter_planar_inv)

section \<open>Termination of the search\<close>

declare incMethod.simps [simp del]

lemma key_less:
  assumes "a < b" "length xs + 1 + length ys \<le> n" "length xs + 1 + length zs \<le> n"
  shows "(pad n (xs @ a # ys), pad n (xs @ b # zs)) \<in> lex less_than"
proof -
  have "pad n (xs @ a # ys) = xs @ a # (ys @ replicate (n - length (xs @ a # ys)) 0)"
    "pad n (xs @ b # zs) = xs @ b # (zs @ replicate (n - length (xs @ b # zs)) 0)"
    by (simp_all add: pad_def)
  moreover have "length (pad n (xs @ a # ys)) = length (pad n (xs @ b # zs))"
    using assms(2,3) by (simp add: pad_def)
  ultimately show ?thesis using assms(1) unfolding lex_conv by (simp del: append_assoc) blast
qed

lemma key_less0:
  assumes "0 < b" "length xs + 1 + length zs \<le> n"
  shows "(pad n xs, pad n (xs @ b # zs)) \<in> lex less_than"
proof -
  have "pad n xs = pad n (xs @ 0 # [])"
  proof -
    have "n - length xs = Suc (n - Suc (length xs))" using assms(2) by simp
    then show ?thesis by (simp add: pad_def)
  qed
  moreover have "(pad n (xs @ 0 # []), pad n (xs @ b # zs)) \<in> lex less_than"
    by (rule key_less) (use assms in simp_all)
  ultimately show ?thesis by simp
qed

lemma runs_exists:
  assumes wf: "wf R"
    and dec: "\<And>c c'. J c \<Longrightarrow> step c = Some (Continue c') \<Longrightarrow> J c' \<and> (f c', f c) \<in> R"
    and J0: "J c0"
    and df: "\<And>c. reaches step c0 c \<Longrightarrow> step c \<noteq> None"
  shows "\<exists>r. runs step c0 r"
proof -
  have "reaches step c0 c \<Longrightarrow> J c \<Longrightarrow> \<exists>r. runs step c r" for c
  proof (induction c rule: wf_induct_rule[OF wf_inv_image[OF wf, of f]])
    case (1 c)
    from df[OF "1.prems"(1)] obtain x where x: "step c = Some x" by auto
    show ?case
    proof (cases x)
      case (Break r)
      with x show ?thesis by (auto intro: runs.runs_break)
    next
      case (Continue c')
      with x have s: "step c = Some (Continue c')" by simp
      from dec[OF "1.prems"(2) s] have "J c'" "(c', c) \<in> inv_image R f" by simp_all
      moreover have "reaches step c0 c'" using "1.prems"(1) s by (rule reaches.reaches_step)
      ultimately obtain r where "runs step c' r" using "1.IH" by blast
      with s show ?thesis by (auto intro: runs.runs_continue)
    qed
  qed
  from this[OF reaches.reaches_start J0] show ?thesis .
qed

lemma main_restore_frame:
  assumes "main_restore c = Continue c1"
  shows "\<not> pop c1 \<and> (if pop c then graphStack c = graphStack c1 @ [G c1]
                      else c1 = c)"
  using assms by (auto simp: main_restore_def split: if_splits)

lemma main_try_frame:
  assumes "main_try v c1 = Some (c2, applied)"
  shows "if applied
         then \<exists>g. graphStack c2 = graphStack c1 @ [g] \<and> pop c2 = pop c1
                \<and> medgadd (G c1) < medgadd g \<and> medgadd g \<le> 10
         else graphStack c2 = graphStack c1 \<and> pop c2"
proof -
  from assms obtain found g where im: "incMethod v (G c1) = Some (found, g)"
    by (auto simp: main_try_def split: Option.bind_splits)
  note R = incMethod_result[OF im]
  show ?thesis
  proof (cases found)
    case False
    with assms im show ?thesis by (auto simp: main_try_def)
  next
    case True
    with assms im have "graphStack c2 = graphStack c1 @ [g]" "pop c2 = pop c1" "applied"
      by (auto simp: main_try_def Let_def split: Option.bind_splits)
    with R True show ?thesis by (auto simp: NUM_METH_def)
  qed
qed

lemma chooseFace_medgadd: "chooseFace s = Some g \<Longrightarrow> medgadd g = 0"
  by (auto simp: chooseFace_def split: Option.bind_splits)

lemma main_open_frame:
  assumes "main_open v M c = Some c'"
  shows "graphStack c' = graphStack c
     \<and> (pop c' \<or> (length (graphStack c) \<le> depth_bound M \<and> medgadd (G c') = 0))"
proof -
  consider (p) "c' = c\<lparr>pop := True\<rparr>"
    | (ch) g where "\<not> int (length (graphStack c)) > as_size_t (M - 4)"
        "chooseFace (G c) = Some g" "c' = c\<lparr>G := g\<rparr>"
    using assms by (auto simp: main_open_def split: if_splits Option.bind_splits)
  then show ?thesis
  proof cases
    case p
    then show ?thesis by simp
  next
    case ch
    from ch(1) have "length (graphStack c) \<le> depth_bound M"
      unfolding depth_bound_def by linarith
    with ch(3) chooseFace_medgadd[OF ch(2)] show ?thesis by simp
  qed
qed

lemma main_after_fast_frame:
  assumes "main_after_fast nauty M c = Some c'"
  shows "graphStack c' = graphStack c
     \<and> (pop c' \<or> (length (graphStack c) \<le> depth_bound M \<and> medgadd (G c') = 0))"
proof (cases "openfaces (G c) = []")
  case True
  from main_after_fast_closed[OF assms True] show ?thesis by simp
next
  case False
  with assms have "main_open Fast M c = Some c'" by (simp add: main_after_fast_def)
  from main_open_frame[OF this] show ?thesis .
qed

lemma main_after_planar_frame:
  assumes "main_after_planar nauty M c = Some c'"
  shows "graphStack c' = graphStack c
     \<and> (pop c' \<or> (length (graphStack c) \<le> depth_bound M \<and> medgadd (G c') = 0))"
proof -
  from assms obtain sp where sp: "symmetry_prune (G c) = Some sp"
    by (auto simp: main_after_planar_def split: Option.bind_splits)
  show ?thesis
  proof (cases sp)
    case True
    with assms sp have "c' = c\<lparr>pop := True\<rparr>" by (simp add: main_after_planar_def)
    then show ?thesis by simp
  next
    case nsp: False
    show ?thesis
    proof (cases "openfaces (G c) = []")
      case True
      with assms sp nsp
      have "(let c = c\<lparr>pop := True\<rparr> in
        if int (length (faces (G c))) > as_size_t M then Some c
        else do {
          fin \<leftarrow> sizefinal Planar (G c);
          if fin then do {
            (canon, w) \<leftarrow> canongraph Planar nauty (G c);
            let c = c\<lparr>cerr := cerr c @ w\<rparr>;
            if canon \<notin> canonslns c then do {
              let c = c\<lparr>canonslns := insert canon (canonslns c), nsuccess := nsuccess c + 1\<rparr>;
              print_graph (G c);
              Some c
            } else Some c
          } else Some c
        }) = Some c'" by (simp add: main_after_planar_def)
      from main_after_planar_closed[OF this] show ?thesis by simp
    next
      case False
      with assms sp nsp have "main_open Planar M c = Some c'"
        by (simp add: main_after_planar_def)
      from main_open_frame[OF this] show ?thesis .
    qed
  qed
qed

text \<open>One turn of either loop, reduced to what the termination argument needs.\<close>

lemma turn_decreases:
  assumes J: "depth_inv M c"
    and r: "main_restore c = Continue c1"
    and t: "if applied
         then \<exists>g. graphStack c2 = graphStack c1 @ [g] \<and> pop c2 = pop c1
                \<and> medgadd (G c1) < medgadd g \<and> medgadd g \<le> 10
         else graphStack c2 = graphStack c1 \<and> pop c2"
    and a: "if applied
         then graphStack c' = graphStack c2
           \<and> (pop c' \<or> (length (graphStack c2) \<le> depth_bound M \<and> medgadd (G c') = 0))
         else c' = c2"
  shows "depth_inv M c' \<and> (search_key M c', search_key M c) \<in> lex less_than"
proof -
  let ?D = "depth_bound M"
  let ?d = "\<lambda>g. 11 - medgadd g"
  define s where "s = graphStack c1"
  from J have Jl: "length (graphStack c) \<le> ?D + 1" and Jm: "\<forall>g\<in>set (graphStack c). medgadd g \<le> 10"
    and Jp: "\<not> pop c \<Longrightarrow> length (graphStack c) \<le> ?D \<and> medgadd (G c) = 0"
    by (simp_all add: depth_inv_def)
  note R = main_restore_frame[OF r]
  have sl: "length s \<le> ?D" and sm: "\<forall>g\<in>set s. medgadd g \<le> 10"
    using R Jl Jm Jp by (auto simp: s_def split: if_splits)
  obtain b where kc: "search_key M c = pad (?D + 1) (map ?d s @ b # [])"
    and b: "11 - medgadd (G c1) \<le> b" "0 < b"
  proof (cases "pop c")
    case True
    with R have gs: "graphStack c = s @ [G c1]" by (simp add: s_def)
    with Jm have "medgadd (G c1) \<le> 10" by simp
    then have "0 < 11 - medgadd (G c1)" by simp
    with True gs that[of "11 - medgadd (G c1)"] show ?thesis by (simp add: search_key_def)
  next
    case False
    with R have "c1 = c" by simp
    with False that[of 12] show ?thesis by (simp add: search_key_def s_def)
  qed
  show ?thesis
  proof (cases applied)
    case False
    with t a have c': "graphStack c' = s" "pop c'" by (simp_all add: s_def)
    then have "search_key M c' = pad (?D + 1) (map ?d s)" by (simp add: search_key_def)
    moreover have "(pad (?D + 1) (map ?d s), pad (?D + 1) (map ?d s @ b # [])) \<in> lex less_than"
      by (rule key_less0) (use b sl in simp_all)
    moreover have "depth_inv M c'" using c' sl sm by (simp add: depth_inv_def)
    ultimately show ?thesis using kc by simp
  next
    case True
    with t obtain g where g: "graphStack c2 = s @ [g]" "medgadd (G c1) < medgadd g"
      "medgadd g \<le> 10" by (auto simp: s_def)
    from True a g have c': "graphStack c' = s @ [g]"
      and pc: "pop c' \<or> (length (s @ [g]) \<le> ?D \<and> medgadd (G c') = 0)" by simp_all
    have lt: "11 - medgadd g < b" using g(2,3) b(1) by linarith
    have inv: "depth_inv M c'" using c' pc sl sm g(3) by (auto simp: depth_inv_def)
    have "search_key M c' = pad (?D + 1) (map ?d s @ (11 - medgadd g) # (if pop c' then [] else [12]))"
      by (simp add: search_key_def c')
    moreover have "(pad (?D + 1) (map ?d s @ (11 - medgadd g) # (if pop c' then [] else [12])),
        pad (?D + 1) (map ?d s @ b # [])) \<in> lex less_than"
      by (rule key_less[OF lt]) (use pc sl in \<open>auto split: if_splits\<close>)
    ultimately show ?thesis using kc inv by simp
  qed
qed

lemma main_iter_fast_decreases:
  assumes "depth_inv M c" "main_iter_fast nauty M c = Some (Continue c')"
  shows "depth_inv M c' \<and> (search_key M c', search_key M c) \<in> lex less_than"
proof -
  from assms(2) obtain c1 c2 applied where r: "main_restore c = Continue c1"
    and t: "main_try Fast c1 = Some (c2, applied)"
    and a: "if applied then main_after_fast nauty M c2 = Some c' else c' = c2"
    by (auto simp: main_iter_fast_def split: flow.splits Option.bind_splits if_splits)
  have a': "if applied
         then graphStack c' = graphStack c2
           \<and> (pop c' \<or> (length (graphStack c2) \<le> depth_bound M \<and> medgadd (G c') = 0))
         else c' = c2"
    using a main_after_fast_frame[of nauty M c2 c'] by (auto split: if_splits)
  from turn_decreases[OF assms(1) r main_try_frame[OF t] a'] show ?thesis .
qed

lemma main_iter_planar_decreases:
  assumes "depth_inv M c" "main_iter_planar nauty M c = Some (Continue c')"
  shows "depth_inv M c' \<and> (search_key M c', search_key M c) \<in> lex less_than"
proof -
  from assms(2) obtain c1 c2 applied where r: "main_restore c = Continue c1"
    and t: "main_try Planar c1 = Some (c2, applied)"
    and a: "if applied then main_after_planar nauty M c2 = Some c' else c' = c2"
    by (auto simp: main_iter_planar_def split: flow.splits Option.bind_splits if_splits)
  have a': "if applied
         then graphStack c' = graphStack c2
           \<and> (pop c' \<or> (length (graphStack c2) \<le> depth_bound M \<and> medgadd (G c') = 0))
         else c' = c2"
    using a main_after_planar_frame[of nauty M c2 c'] by (auto split: if_splits)
  from turn_decreases[OF assms(1) r main_try_frame[OF t] a'] show ?thesis .
qed

lemma depth_inv_init: "depth_inv M (main_init ns)"
  by (simp add: depth_inv_def main_init_def GraphState_init_def)

lemma search_terminates_fast:
  assumes "\<And>c. reaches (main_iter_fast nauty M) (main_init ns) c
             \<Longrightarrow> main_iter_fast nauty M c \<noteq> None"
  shows "\<exists>r. runs (main_iter_fast nauty M) (main_init ns) r"
  by (rule runs_exists[where R="lex less_than" and J="depth_inv M" and f="search_key M"])
     (use assms in \<open>auto intro: wf_lex depth_inv_init dest: main_iter_fast_decreases\<close>)

lemma search_terminates_planar:
  assumes "\<And>c. reaches (main_iter_planar nauty M) (main_init k) c
             \<Longrightarrow> main_iter_planar nauty M c \<noteq> None"
  shows "\<exists>r. runs (main_iter_planar nauty M) (main_init k) r"
  by (rule runs_exists[where R="lex less_than" and J="depth_inv M" and f="search_key M"])
     (use assms in \<open>auto intro: wf_lex depth_inv_init dest: main_iter_planar_decreases\<close>)

section \<open>Reaching a configuration\<close>

lemma reaches_prepend:
  assumes "step c = Some (Continue c1)" "reaches step c1 c'"
  shows "reaches step c c'"
  using assms(2,1)
proof (induction rule: reaches.induct)
  case (reaches_start d)
  from reaches.reaches_step[of step c c d, OF reaches.reaches_start this] show ?case .
next
  case (reaches_step d d' d'')
  from reaches.reaches_step[OF reaches_step.IH[OF reaches_step.prems] reaches_step.hyps(2)]
  show ?case .
qed

lemma turns_reaches: "turns k step c = Some c' \<Longrightarrow> reaches step c c'"
proof (induction k arbitrary: c)
  case 0
  then show ?case by (auto intro: reaches.reaches_start)
next
  case (Suc k)
  from Suc.prems obtain c1 where s: "step c = Some (Continue c1)" and t: "turns k step c1 = Some c'"
    by (auto split: option.splits flow.splits)
  from reaches_prepend[OF s Suc.IH[OF t]] show ?case .
qed

lemma reaches_first:
  "reaches step c0 c \<Longrightarrow> c = c0 \<or> (\<exists>c1. step c0 = Some (Continue c1) \<and> reaches step c1 c)"
proof (induction rule: reaches.induct)
  case (reaches_start c)
  then show ?case by simp
next
  case (reaches_step c c' c'')
  from reaches_step.IH show ?case
  proof
    assume "c' = c"
    with reaches_step.hyps(2) have "step c = Some (Continue c'')" by simp
    moreover have "reaches step c'' c''" by (rule reaches.reaches_start)
    ultimately show ?thesis by blast
  next
    assume "\<exists>c1. step c = Some (Continue c1) \<and> reaches step c1 c'"
    then obtain c1 where a: "step c = Some (Continue c1)" "reaches step c1 c'" by blast
    from reaches.reaches_step[OF a(2) reaches_step.hyps(2)] a(1) show ?thesis by blast
  qed
qed

lemma run_turns_defined:
  "run_turns k step c0 = Some r \<Longrightarrow> reaches step c0 c \<Longrightarrow> step c \<noteq> None"
proof (induction k arbitrary: c0)
  case 0
  then show ?case by simp
next
  case (Suc k)
  from reaches_first[OF Suc.prems(2)] show ?case
  proof
    assume "c = c0"
    with Suc.prems(1) show ?thesis by (auto split: option.splits)
  next
    assume "\<exists>c1. step c0 = Some (Continue c1) \<and> reaches step c1 c"
    then obtain c1 where s: "step c0 = Some (Continue c1)" and r: "reaches step c1 c" by blast
    from Suc.prems(1) s have "run_turns k step c1 = Some r" by simp
    from Suc.IH[OF this r] show ?thesis .
  qed
qed

lemma erase_loop_renumber:
  assumes "erase_loop efs s = Some s'" "sorted (rev efs)" "distinct efs"
    and "refs_ok s" "set efs \<inter> set (openfaces s) = {}"
  shows "\<forall>k<length (openfaces s). faces s' ! (openfaces s' ! k) = faces s ! (openfaces s ! k)"
  using assms
proof (induction efs arbitrary: s)
  case Nil
  then show ?case by simp
next
  case (Cons ef efs)
  define dec where "dec = (\<lambda>opf. if opf > ef then opf - 1 else opf)"
  define t where "t = s\<lparr>openfaces := map dec (openfaces s),
              faces := take ef (faces s) @ drop (Suc ef) (faces s)\<rparr>"
  from Cons.prems(1) have ef: "ef < length (faces s)" and rest: "erase_loop efs t = Some s'"
    by (auto simp: Let_def t_def dec_def split: if_splits)
  have one: "erase_loop [ef] s = Some t" using ef by (simp add: t_def dec_def Let_def)
  have s1: "sorted (rev [ef])" "distinct [ef]" "set [ef] \<inter> set (openfaces s) = {}"
    using Cons.prems(5) by auto
  from erase_loop_inv[OF one s1(1,2) Cons.prems(4) s1(3)]
  have t1: "refs_ok t" and lt: "length (openfaces t) = length (openfaces s)" by simp_all
  from Cons.prems(2,3) have below: "\<forall>r\<in>set efs. r < ef"
    by (auto simp: sorted_append) (metis le_neq_implies_less)
  from Cons.prems(5) have efn: "ef \<notin> set (openfaces s)" by auto
  have t2: "set efs \<inter> set (openfaces t) = {}"
  proof -
    have "r \<notin> set (openfaces t)" if "r \<in> set efs" for r
    proof
      assume "r \<in> set (openfaces t)"
      then obtain x where x: "x \<in> set (openfaces s)" "r = dec x" by (auto simp: t_def)
      from that below have "r < ef" by simp
      with x efn have "r = x" unfolding dec_def by (cases "ef < x") auto
      with x(1) that Cons.prems(5) show False by auto
    qed
    then show ?thesis by auto
  qed
  have s2: "sorted (rev efs)" "distinct efs" using Cons.prems(2,3) by (auto simp: sorted_append)
  note ih = Cons.IH[OF rest s2 t1 t2]
  have step: "faces t ! (openfaces t ! k) = faces s ! (openfaces s ! k)"
    if k: "k < length (openfaces s)" for k
  proof -
    let ?f = "openfaces s ! k"
    from k have m: "?f \<in> set (openfaces s)" by simp
    with Cons.prems(4) efn have f: "?f < length (faces s)" "?f \<noteq> ef"
      by (auto simp: refs_ok_def)
    have "openfaces t ! k = dec ?f" using k by (simp add: t_def)
    moreover have "faces t ! dec ?f = faces s ! ?f"
      using f ef by (auto simp: t_def dec_def nth_append min_def)
    ultimately show ?thesis by simp
  qed
  show ?case using ih step lt by simp
qed

lemma tri_ok_closedFaces:
  assumes "tri_ok s"
  shows "length (filter (\<lambda>f. length f = 3) (closedFaces s)) = 1"
proof -
  let ?F = "length (faces s)"
  from assms have p: "0 < ?F" and z: "0 \<notin> set (openfaces s)" and l0: "length (faces s ! 0) = 3"
    and cls: "\<And>i. 0 < i \<Longrightarrow> i < ?F \<Longrightarrow> i \<notin> set (openfaces s)
                 \<Longrightarrow> length (faces s ! i) \<in> {4, 5, 6}"
    unfolding tri_ok_def by auto
  from p have u: "[0..<?F] = 0 # [Suc 0..<?F]" by (simp add: upt_conv_Cons)
  have "filter (\<lambda>f. length f = 3)
          (map (\<lambda>i. faces s ! i) (filter (\<lambda>i. i \<notin> set (openfaces s)) [Suc 0..<?F])) = []"
  proof -
    have "length (faces s ! i) \<noteq> 3"
      if "i \<in> set (filter (\<lambda>i. i \<notin> set (openfaces s)) [Suc 0..<?F])" for i
    proof -
      from that have "0 < i" "i < ?F" "i \<notin> set (openfaces s)" by simp_all
      from cls[OF this] show ?thesis by auto
    qed
    then show ?thesis unfolding filter_empty_conv by (simp only: set_map) blast
  qed
  then show ?thesis unfolding closedFaces_def u using z l0 by simp
qed

section \<open>Sample runs\<close>

lemma accepting_config_reached_fast:
  "turns 169 (main_iter_fast echo_oracle 9) (main_init [0, 0, 0]) = Some (accepting_config [0, 0, 0::int])"
  by code_simp

lemma accepting_config_reached_planar:
  "turns 140 (main_iter_planar echo_oracle 9) (main_init 0) = Some (accepting_config 0)"
  by code_simp

lemma full_run_fast_9:
  "run_turns 736 (main_iter_fast echo_oracle 9) (main_init [0, 0, 0])
     = Some (search_result_9 [0, 1, 0])"
  by code_simp

lemma full_run_planar_9:
  "run_turns 497 (main_iter_planar echo_oracle 9) (main_init 0) = Some (search_result_9 1)"
  by code_simp

section \<open>The open-boundary references\<close>

text \<open>
  C9: the loop that ends \<open>addEdges\<close> takes the indices of \<open>toerase\<close> in descending
  order (\<open>rev (sort te)\<close>), removes that face and lowers by one every open-boundary
  entry above it. Run on references that are valid (distinct and in range,
  \<open>refs_ok\<close>) and that do not name a face to be removed, it leaves the references
  valid, removes exactly the faces of \<open>toerase\<close>, and every entry still names the
  face it named before. Consequently, in every configuration that either search comes
  to, after any number of moves, the entries of the open-boundary sequence of the
  current state and of every stacked state are distinct indices into the face
  sequence.
\<close>

theorem open_references_valid:
  "(erase_loop (rev (sort te)) s = Some s' \<and> distinct te \<and> refs_ok s
      \<and> set te \<inter> set (openfaces s) = {}
    \<longrightarrow> refs_ok s' \<and> length (faces s') + length te = length (faces s)
        \<and> length (openfaces s') = length (openfaces s)
        \<and> (\<forall>k<length (openfaces s). faces s' ! (openfaces s' ! k) = faces s ! (openfaces s ! k)))
   \<and> (reaches (main_iter_fast nauty M) (main_init ns) c
        \<longrightarrow> refs_ok (G c) \<and> (\<forall>g\<in>set (graphStack c). refs_ok g))
   \<and> (reaches (main_iter_planar nauty M) (main_init k) d
        \<longrightarrow> refs_ok (G d) \<and> (\<forall>g\<in>set (graphStack d). refs_ok g))"
proof (intro conjI impI)
  assume a: "erase_loop (rev (sort te)) s = Some s' \<and> distinct te \<and> refs_ok s
      \<and> set te \<inter> set (openfaces s) = {}"
  then have e: "erase_loop (rev (sort te)) s = Some s'" and d: "distinct te" and r: "refs_ok s"
    and j: "set te \<inter> set (openfaces s) = {}" by simp_all
  from erase_loop_sorted[OF e d r j]
  show "refs_ok s'" "length (faces s') + length te = length (faces s)"
    "length (openfaces s') = length (openfaces s)" by simp_all
  have "sorted (rev (rev (sort te)))" "distinct (rev (sort te))"
    "set (rev (sort te)) \<inter> set (openfaces s) = {}" using d j by simp_all
  from erase_loop_renumber[OF e this(1,2) r this(3)]
  show "\<forall>k<length (openfaces s). faces s' ! (openfaces s' ! k) = faces s ! (openfaces s ! k)" .
next
  assume "reaches (main_iter_fast nauty M) (main_init ns) c"
  from reaches_fast_inv[OF this]
  show "refs_ok (G c)" "\<forall>g\<in>set (graphStack c). refs_ok g"
    by (simp_all add: cfg_inv_def mid_inv_def head_ok_def st_inv_def)
next
  assume "reaches (main_iter_planar nauty M) (main_init k) d"
  from reaches_planar_inv[OF this]
  show "refs_ok (G d)" "\<forall>g\<in>set (graphStack d). refs_ok g"
    by (simp_all add: cfg_inv_def mid_inv_def head_ok_def st_inv_def)
qed

theorem open_references_valid_witness:
  "erase_loop (rev (sort [5, 3])) (GraphState_init\<lparr>openfaces := [2, 4, 6]\<rparr>)
      = Some renumbered_example
   \<and> refs_ok renumbered_example \<and> openfaces renumbered_example = [2, 3, 4]
   \<and> length (faces renumbered_example) = 5
   \<and> faces renumbered_example ! 3 = faces GraphState_init ! 4
   \<and> reaches (main_iter_fast echo_oracle 9) (main_init [0, 0, 0]) (accepting_config [0, 0, 0::int])
   \<and> refs_ok (G (accepting_config [0, 0, 0::int]))
   \<and> openfaces (G (accepting_config [0, 0, 0::int])) = [8, 5]
   \<and> reaches (main_iter_planar echo_oracle 9) (main_init 0) (accepting_config 0)
   \<and> refs_ok (G (accepting_config (0::nat)))"
proof -
  note T = open_references_valid[where te="[5, 3]"
      and s="GraphState_init\<lparr>openfaces := [2, 4, 6]\<rparr>" and s'=renumbered_example
      and nauty=echo_oracle and M=9 and ns="[0, 0, 0]" and c="accepting_config [0, 0, 0::int]"
      and k=0 and d="accepting_config 0"]
  have e: "erase_loop (rev (sort [5, 3])) (GraphState_init\<lparr>openfaces := [2, 4, 6]\<rparr>)
      = Some renumbered_example" by code_simp
  have h: "distinct [5, 3::nat]" "refs_ok (GraphState_init\<lparr>openfaces := [2, 4, 6]\<rparr>)"
    "set [5, 3] \<inter> set (openfaces (GraphState_init\<lparr>openfaces := [2, 4, 6]\<rparr>)) = {}"
    by code_simp+
  have rf: "reaches (main_iter_fast echo_oracle 9) (main_init [0, 0, 0]) (accepting_config [0, 0, 0::int])"
    by (rule turns_reaches[OF accepting_config_reached_fast])
  have rp: "reaches (main_iter_planar echo_oracle 9) (main_init 0) (accepting_config 0)"
    by (rule turns_reaches[OF accepting_config_reached_planar])
  from T have A: "erase_loop (rev (sort [5, 3])) (GraphState_init\<lparr>openfaces := [2, 4, 6]\<rparr>)
         = Some renumbered_example \<and> distinct [5, 3::nat]
       \<and> refs_ok (GraphState_init\<lparr>openfaces := [2, 4, 6]\<rparr>)
       \<and> set [5, 3] \<inter> set (openfaces (GraphState_init\<lparr>openfaces := [2, 4, 6]\<rparr>)) = {}
      \<longrightarrow> refs_ok renumbered_example"
    and B: "reaches (main_iter_fast echo_oracle 9) (main_init [0, 0, 0]) (accepting_config [0, 0, 0::int])
      \<longrightarrow> refs_ok (G (accepting_config [0, 0, 0::int]))"
    and C: "reaches (main_iter_planar echo_oracle 9) (main_init 0) (accepting_config 0)
      \<longrightarrow> refs_ok (G (accepting_config (0::nat)))"
    by blast+
  from A e h have 1: "refs_ok renumbered_example" by (intro mp[OF A] conjI)
  from B rf have 2: "refs_ok (G (accepting_config [0, 0, 0::int]))" by (rule mp)
  from C rp have 3: "refs_ok (G (accepting_config (0::nat)))" by (rule mp)
  have 4: "openfaces renumbered_example = [2, 3, 4]" "length (faces renumbered_example) = 5"
    "faces renumbered_example ! 3 = faces GraphState_init ! 4"
    "openfaces (G (accepting_config [0, 0, 0::int])) = [8, 5]"
    by code_simp+
  from e 1 2 3 4 rf rp show ?thesis by (intro conjI)
qed

section \<open>The faces that a legal move closes\<close>

text \<open>
  C10: take any configuration that the search of \<^verbatim>\<open>planar.cc\<close> comes to, the state
  \<open>G c1\<close> that its next turn works on, and any move id \<open>m\<close> that \<open>isValid\<close> accepts for
  the chosen face. If \<open>addEdges\<close> returns, it has written nothing to the error stream
  (the default branch of \<open>countFace\<close> was not taken), face 0 is closed with three
  edges, and every other closed face has 4, 5 or 6 edges: exactly one closed face is
  a triangle, in the new state and in the state of the configuration. No
  configuration has the message of the default branch in its error stream.
\<close>

theorem legal_move_closes_4_to_6:
  assumes "reaches (main_iter_planar nauty M) (main_init k) c"
    and "main_restore c = Continue c1"
    and "isValid Planar (G c1) (chosenFace (G c1)) m = Some True"
    and "addEdges Planar (G c1) (chosenFace (G c1)) m = Some (g, w)"
  shows "w = [] \<and> 0 \<notin> set (openfaces g) \<and> length (faces g ! 0) = 3
    \<and> (\<forall>i. 0 < i \<and> i < length (faces g) \<and> i \<notin> set (openfaces g)
           \<longrightarrow> length (faces g ! i) \<in> {4, 5, 6})
    \<and> length (filter (\<lambda>f. length f = 3) (closedFaces g)) = 1
    \<and> length (filter (\<lambda>f. length f = 3) (closedFaces (G c))) = 1
    \<and> ''**Face of size!'' \<notin> set (cerr c)"
proof -
  from reaches_planar_inv[OF assms(1)] have ci: "cfg_inv c" .
  then have tc: "tri_ok (G c)" and q: "''**Face of size!'' \<notin> set (cerr c)"
    by (simp_all add: cfg_inv_def mid_inv_def st_inv_def quiet_def)
  from main_restore_inv[OF assms(2) ci] have h: "head_ok (G c1)" by simp
  then have ok: "refs_ok (G c1)" "tri_ok (G c1)" and n: "2 \<le> length (openfaces (G c1))"
    "chosenFace (G c1) < length (openfaces (G c1))"
    by (simp_all add: head_ok_def st_inv_def)
  from addEdges_inv[OF assms(4,3) ok(1) n] ok(2) have w: "w = []" and tg: "tri_ok g" by simp_all
  from tg have "0 \<notin> set (openfaces g)" "length (faces g ! 0) = 3"
    "\<forall>i. 0 < i \<and> i < length (faces g) \<and> i \<notin> set (openfaces g)
           \<longrightarrow> length (faces g ! i) \<in> {4, 5, 6}"
    unfolding tri_ok_def by simp_all
  with w q tri_ok_closedFaces[OF tg] tri_ok_closedFaces[OF tc] show ?thesis by simp
qed

theorem legal_move_closes_4_to_6_witness:
  "reaches (main_iter_planar echo_oracle 9) (main_init 0) (accepting_config 0)
   \<and> main_restore (accepting_config (0::nat)) = Continue (accepting_config 0)
   \<and> isValid Planar (G (accepting_config (0::nat))) (chosenFace (G (accepting_config (0::nat)))) 1
       = Some True
   \<and> addEdges Planar (G (accepting_config (0::nat))) (chosenFace (G (accepting_config (0::nat)))) 1
       = Some (accepted_example\<lparr>medgadd := 0\<rparr>, [])
   \<and> map length (closedFaces (G (accepting_config (0::nat)))) = [3, 6, 5, 5, 5, 5, 5]
   \<and> map length (closedFaces (accepted_example\<lparr>medgadd := 0\<rparr>)) = [3, 6, 5, 5, 5, 4, 5, 5, 4]
   \<and> length (filter (\<lambda>f. length f = 3) (closedFaces (accepted_example\<lparr>medgadd := 0\<rparr>))) = 1
   \<and> length (filter (\<lambda>f. length f = 3) (closedFaces (G (accepting_config (0::nat))))) = 1
   \<and> ''**Face of size!'' \<notin> set (cerr (accepting_config (0::nat)))"
proof -
  have r: "reaches (main_iter_planar echo_oracle 9) (main_init 0) (accepting_config 0)"
    by (rule turns_reaches[OF accepting_config_reached_planar])
  have rs: "main_restore (accepting_config (0::nat)) = Continue (accepting_config 0)"
    by code_simp
  have v: "isValid Planar (G (accepting_config (0::nat)))
             (chosenFace (G (accepting_config (0::nat)))) 1 = Some True"
    by code_simp
  have a: "addEdges Planar (G (accepting_config (0::nat)))
             (chosenFace (G (accepting_config (0::nat)))) 1
       = Some (accepted_example\<lparr>medgadd := 0\<rparr>, [])"
    by code_simp
  have l: "map length (closedFaces (G (accepting_config (0::nat)))) = [3, 6, 5, 5, 5, 5, 5]"
    "map length (closedFaces (accepted_example\<lparr>medgadd := 0\<rparr>)) = [3, 6, 5, 5, 5, 4, 5, 5, 4]"
    by code_simp+
  from legal_move_closes_4_to_6[OF r rs v a]
  have "length (filter (\<lambda>f. length f = 3) (closedFaces (accepted_example\<lparr>medgadd := 0\<rparr>))) = 1"
    "length (filter (\<lambda>f. length f = 3) (closedFaces (G (accepting_config (0::nat))))) = 1"
    "''**Face of size!'' \<notin> set (cerr (accepting_config (0::nat)))"
    by blast+
  with r rs v a l show ?thesis by (intro conjI)
qed

section \<open>The completed maps\<close>

text \<open>
  C2: whenever the search of \<^verbatim>\<open>planar-fast.cc\<close> applies a move that empties the
  open-boundary sequence, the map it has then built (and so every map it accepts)
  satisfies \<open>V - E + F = 2\<close> and \<open>2 E = 3 V\<close>, with \<open>V = numverts\<close>, \<open>E\<close> the number of
  edges and \<open>F\<close> the number of faces.
\<close>

theorem completed_map_euler:
  assumes "main_init_fast M = Some c0"
    and "reaches (main_iter_fast nauty M) c0 c"
    and "main_restore c = Continue c1"
    and "main_try Fast c1 = Some (c2, True)"
    and "openfaces (G c2) = []"
  shows "numverts (G c2) - int (length (edges (G c2))) + int (length (faces (G c2))) = 2
     \<and> 2 * int (length (edges (G c2))) = 3 * numverts (G c2)"
proof -
  from assms(1) have "c0 = main_init (replicate (nat (M - 6)) 0)"
    by (simp add: main_init_fast_def split: if_splits)
  with assms(2) have ci: "cfg_inv c" by (simp add: reaches_fast_inv)
  from main_restore_inv[OF assms(3) ci] have 1: "mid_inv c1" "head_ok (G c1)" by simp_all
  from main_try_inv[OF assms(4) 1] have "euler_ok (G c2)" by (simp add: mid_inv_def st_inv_def)
  with assms(5) have "numverts (G c2) - 2 * int (length (faces (G c2))) = - 4"
    "int (length (edges (G c2))) - 3 * int (length (faces (G c2))) = - 6"
    by (simp_all add: euler_ok_def euler_rel_def)
  then show ?thesis by linarith
qed

theorem completed_map_euler_witness:
  "main_init_fast 9 = Some (main_init [0, 0, 0])
   \<and> reaches (main_iter_fast echo_oracle 9) (main_init [0, 0, 0]) (accepting_config [0, 0, 0::int])
   \<and> main_restore (accepting_config [0, 0, 0::int]) = Continue (accepting_config [0, 0, 0::int])
   \<and> main_try Fast (accepting_config [0, 0, 0::int])
       = Some ((accepting_config [0, 0, 0::int])
                 \<lparr>G := accepted_example,
                  graphStack := graphStack (accepting_config [0, 0, 0::int])
                                  @ [(G (accepting_config [0, 0, 0::int]))\<lparr>medgadd := 1\<rparr>]\<rparr>, True)
   \<and> openfaces accepted_example = []
   \<and> sizefinal Fast accepted_example = Some True
   \<and> numverts accepted_example = 14 \<and> length (edges accepted_example) = 21
   \<and> length (faces accepted_example) = 9
   \<and> numverts accepted_example - int (length (edges accepted_example))
        + int (length (faces accepted_example)) = 2
   \<and> 2 * int (length (edges accepted_example)) = 3 * numverts accepted_example"
proof -
  let ?c2 = "(accepting_config [0, 0, 0::int])
                 \<lparr>G := accepted_example,
                  graphStack := graphStack (accepting_config [0, 0, 0::int])
                                  @ [(G (accepting_config [0, 0, 0::int]))\<lparr>medgadd := 1\<rparr>]\<rparr>"
  have i: "main_init_fast 9 = Some (main_init [0, 0, 0])" by code_simp
  have r: "reaches (main_iter_fast echo_oracle 9) (main_init [0, 0, 0]) (accepting_config [0, 0, 0::int])"
    by (rule turns_reaches[OF accepting_config_reached_fast])
  have rs: "main_restore (accepting_config [0, 0, 0::int]) = Continue (accepting_config [0, 0, 0::int])"
    by code_simp
  have mt: "main_try Fast (accepting_config [0, 0, 0::int]) = Some (?c2, True)" by code_simp
  have g: "G ?c2 = accepted_example" by simp
  have op: "openfaces (G ?c2) = []" unfolding g by code_simp
  have f: "openfaces accepted_example = []" "sizefinal Fast accepted_example = Some True"
    "numverts accepted_example = 14" "length (edges accepted_example) = 21"
    "length (faces accepted_example) = 9" by code_simp+
  from completed_map_euler[OF i r rs mt op]
  have "numverts accepted_example - int (length (edges accepted_example))
        + int (length (faces accepted_example)) = 2"
    "2 * int (length (edges accepted_example)) = 3 * numverts accepted_example"
    unfolding g by blast+
  with i r rs mt f show ?thesis by (intro conjI)
qed

section \<open>Two runs of the search\<close>

text \<open>
  C8: the search is a function of the oracle, the bound and the tallies it starts with.
  Unless a turn of the loop is undefined (a read out of range, or a failed assertion of
  \<^verbatim>\<open>planar.cc\<close>), it ends, and it ends in exactly one configuration: any two runs
  give the same tallies and the same registry. The search ends because the stack is
  never deeper than the bound allows and every turn moves the cursors of the stacked
  states forward.
\<close>

theorem search_deterministic:
  "((\<forall>c. reaches (main_iter_fast nauty M) (main_init ns) c \<longrightarrow> main_iter_fast nauty M c \<noteq> None)
      \<longrightarrow> (\<exists>!r. runs (main_iter_fast nauty M) (main_init ns) r))
   \<and> ((\<forall>d. reaches (main_iter_planar nauty M) (main_init k) d
            \<longrightarrow> main_iter_planar nauty M d \<noteq> None)
      \<longrightarrow> (\<exists>!q. runs (main_iter_planar nauty M) (main_init k) q))"
proof (intro conjI impI)
  assume "\<forall>c. reaches (main_iter_fast nauty M) (main_init ns) c \<longrightarrow> main_iter_fast nauty M c \<noteq> None"
  then obtain r where "runs (main_iter_fast nauty M) (main_init ns) r"
    using search_terminates_fast[of nauty M ns] by blast
  then show "\<exists>!r. runs (main_iter_fast nauty M) (main_init ns) r"
    using runs_deterministic[of "main_iter_fast nauty M" "main_init ns"] by blast
next
  assume "\<forall>d. reaches (main_iter_planar nauty M) (main_init k) d
            \<longrightarrow> main_iter_planar nauty M d \<noteq> None"
  then obtain q where "runs (main_iter_planar nauty M) (main_init k) q"
    using search_terminates_planar[of nauty M k] by blast
  then show "\<exists>!q. runs (main_iter_planar nauty M) (main_init k) q"
    using runs_deterministic[of "main_iter_planar nauty M" "main_init k"] by blast
qed

theorem search_deterministic_witness:
  "main_init_fast 9 = Some (main_init [0, 0, 0])
   \<and> {r. runs (main_iter_fast echo_oracle 9) (main_init [0, 0, 0]) r} = {search_result_9 [0, 1, 0]}
   \<and> {q. runs (main_iter_planar echo_oracle 9) (main_init 0) q} = {search_result_9 1}
   \<and> canonslns (search_result_9 [0, 1, 0]) \<noteq> {}"
proof -
  note T = search_deterministic[where nauty=echo_oracle and M=9 and ns="[0, 0, 0]" and k=0]
  have i: "main_init_fast 9 = Some (main_init [0, 0, 0])" by code_simp
  have rf: "runs (main_iter_fast echo_oracle 9) (main_init [0, 0, 0]) (search_result_9 [0, 1, 0])"
    by (rule run_turns_runs[OF full_run_fast_9])
  have rp: "runs (main_iter_planar echo_oracle 9) (main_init 0) (search_result_9 1)"
    by (rule run_turns_runs[OF full_run_planar_9])
  have df: "\<forall>c. reaches (main_iter_fast echo_oracle 9) (main_init [0, 0, 0]) c
              \<longrightarrow> main_iter_fast echo_oracle 9 c \<noteq> None"
    using run_turns_defined[OF full_run_fast_9] by blast
  have dp: "\<forall>d. reaches (main_iter_planar echo_oracle 9) (main_init 0) d
              \<longrightarrow> main_iter_planar echo_oracle 9 d \<noteq> None"
    using run_turns_defined[OF full_run_planar_9] by blast
  from T df have uf: "\<exists>!r. runs (main_iter_fast echo_oracle 9) (main_init [0, 0, 0]) r" by blast
  from T dp have up: "\<exists>!q. runs (main_iter_planar echo_oracle 9) (main_init 0) q" by blast
  from uf rf have 1: "{r. runs (main_iter_fast echo_oracle 9) (main_init [0, 0, 0]) r}
      = {search_result_9 [0, 1, 0]}" by blast
  from up rp have 2: "{q. runs (main_iter_planar echo_oracle 9) (main_init 0) q}
      = {search_result_9 1}" by blast
  have 3: "canonslns (search_result_9 [0, 1, 0]) \<noteq> {}" by (simp add: search_result_9_def)
  from i 1 2 3 show ?thesis by (intro conjI)
qed

end
